theory Spec2Isabelle
  imports Complex_Main "HOL-Library.Sublist"
begin

section \<open>Exceptions\<close>

text \<open>
  The errors of \<^verbatim>\<open>rpmdeplint/repodata.py\<close> as values. The \<^verbatim>\<open>except\<close> clauses of the
  source select by class, so the two class tests they use are functions on the
  exception: \<^verbatim>\<open>except OSError\<close> and \<^verbatim>\<open>except Exception\<close>.
\<close>

datatype errno = ENOENT | EISDIR | ENOTDIR | EEXIST | EACCES | ENOSPC

datatype exn =
    OSError errno
  | RequestException string
  | RepoDownloadError string
  | PackageDownloadError string
  | ValueError string
  | RuntimeError string
  | AttributeError string
  | OtherException string
  | KeyboardInterrupt

text \<open>
  \<^verbatim>\<open>requests.exceptions.RequestException\<close> derives from \<^verbatim>\<open>IOError\<close>, which is
  \<^verbatim>\<open>OSError\<close>. \<open>OtherException\<close> stands for any other subclass of \<^verbatim>\<open>Exception\<close>, such as
  the errors of \<^verbatim>\<open>urllib3\<close> (\<^verbatim>\<open>ProtocolError\<close>, \<^verbatim>\<open>ReadTimeoutError\<close>), which derive from
  \<^verbatim>\<open>Exception\<close> directly; \<open>KeyboardInterrupt\<close> derives from \<^verbatim>\<open>BaseException\<close> only.
\<close>

fun is_OSError :: "exn \<Rightarrow> bool" where
  "is_OSError (OSError e) = True"
| "is_OSError (RequestException s) = True"
| "is_OSError x = False"

fun is_Exception :: "exn \<Rightarrow> bool" where
  "is_Exception KeyboardInterrupt = False"
| "is_Exception x = True"

section \<open>The filesystem\<close>

text \<open>
  A path is the list of its components below the root (a \<^verbatim>\<open>pathlib.Path\<close>). The
  filesystem is an association list from paths to nodes; its order is the order in
  which a directory listing enumerates. A regular file carries its content, its
  modification time (seconds, as a real number: the rounding of Python's floats is
  not modelled) and its mode bits; a directory carries whether it can be read
  (listed and opened). The root is a readable directory.
\<close>

type_synonym path = "string list"
type_synonym bytes = string

datatype node =
    File bytes real nat
  | Dir bool

type_synonym fs = "(path \<times> node) list"

definition lookup :: "fs \<Rightarrow> path \<Rightarrow> node option" where
  "lookup fs p = (if p = [] then Some (Dir True) else map_of fs p)"

definition fs_del :: "path \<Rightarrow> fs \<Rightarrow> fs" where
  "fs_del p fs = filter (\<lambda>(k, n). k \<noteq> p) fs"

text \<open>Writing a node keeps the place of an entry that exists and appends a new one.\<close>

fun fs_put :: "path \<Rightarrow> node \<Rightarrow> fs \<Rightarrow> fs" where
  "fs_put p n [] = [(p, n)]"
| "fs_put p n ((k, v) # fs) = (if k = p then (p, n) # fs else (k, v) # fs_put p n fs)"

text \<open>
  Path resolution walks the ancestor directories from the root: a missing one is
  \<open>ENOENT\<close>, one that is a regular file is \<open>ENOTDIR\<close>.
\<close>

fun walk :: "fs \<Rightarrow> path list \<Rightarrow> errno option" where
  "walk fs [] = None"
| "walk fs (q # qs) =
     (case lookup fs q of
        None \<Rightarrow> Some ENOENT
      | Some (File c m md) \<Rightarrow> Some ENOTDIR
      | Some (Dir r) \<Rightarrow> walk fs qs)"

definition ancestors :: "path \<Rightarrow> path list" where
  "ancestors p = butlast (prefixes p)"

definition stat :: "fs \<Rightarrow> path \<Rightarrow> errno + node" where
  "stat fs p =
     (case walk fs (ancestors p) of
        Some e \<Rightarrow> Inl e
      | None \<Rightarrow> (case lookup fs p of None \<Rightarrow> Inl ENOENT | Some n \<Rightarrow> Inr n))"

text \<open>\<^verbatim>\<open>Path.is_dir()\<close> and \<^verbatim>\<open>Path.is_file()\<close>: false when the path does not resolve.\<close>

definition is_dir :: "fs \<Rightarrow> path \<Rightarrow> bool" where
  "is_dir fs p = (case stat fs p of Inr (Dir r) \<Rightarrow> True | _ \<Rightarrow> False)"

definition is_file :: "fs \<Rightarrow> path \<Rightarrow> bool" where
  "is_file fs p = (case stat fs p of Inr (File c m md) \<Rightarrow> True | _ \<Rightarrow> False)"

text \<open>
  \<^verbatim>\<open>open(p, "rb")\<close>: the content of a regular file; \<open>EISDIR\<close> on a directory that
  can be read, \<open>EACCES\<close> on one that cannot.
\<close>

definition open_rb :: "fs \<Rightarrow> path \<Rightarrow> errno + bytes" where
  "open_rb fs p =
     (case stat fs p of
        Inl e \<Rightarrow> Inl e
      | Inr (Dir r) \<Rightarrow> Inl (if r then EISDIR else EACCES)
      | Inr (File c m md) \<Rightarrow> Inr c)"

definition children :: "fs \<Rightarrow> path \<Rightarrow> path list" where
  "children fs d = filter (\<lambda>k. k \<noteq> [] \<and> butlast k = d) (map fst fs)"

text \<open>\<^verbatim>\<open>Path.iterdir()\<close>: the listing of a readable directory, an \<^verbatim>\<open>OSError\<close> otherwise.\<close>

definition iterdir :: "fs \<Rightarrow> path \<Rightarrow> errno + path list" where
  "iterdir fs d =
     (case stat fs d of
        Inl e \<Rightarrow> Inl e
      | Inr (File c m md) \<Rightarrow> Inl ENOTDIR
      | Inr (Dir r) \<Rightarrow> if r then Inr (children fs d) else Inl EACCES)"

definition unlink :: "path \<Rightarrow> fs \<Rightarrow> errno + fs" where
  "unlink p fs =
     (case stat fs p of
        Inl e \<Rightarrow> Inl e
      | Inr (Dir r) \<Rightarrow> Inl EISDIR
      | Inr (File c m md) \<Rightarrow> Inr (fs_del p fs))"

section \<open>The cache: paths and eviction\<close>

text \<open>
  The process environment that \<^verbatim>\<open>Cache\<close> reads. \<^verbatim>\<open>RPMDEPLINT_EXPIRY_SECONDS\<close> is
  kept as what \<^verbatim>\<open>float()\<close> makes of it: unset, a text that parses to a number, or
  a text that \<^verbatim>\<open>float()\<close> rejects with \<^verbatim>\<open>ValueError\<close>.
\<close>

datatype expiry_setting = Unset | Parses real | Malformed string

record env =
  XDG_CACHE_HOME :: "path option"
  home :: path
  RPMDEPLINT_EXPIRY_SECONDS :: expiry_setting

text \<open>\<^verbatim>\<open>Path / segment\<close>: an empty segment leaves the path as it is.\<close>

definition pjoin :: "path \<Rightarrow> string \<Rightarrow> path" where
  "pjoin p s = (if s = [] then p else p @ [s])"

definition base_path :: "env \<Rightarrow> path" where
  "base_path e =
     (case XDG_CACHE_HOME e of
        None \<Rightarrow> pjoin (home e) ''.cache''
      | Some h \<Rightarrow> h) @ [''rpmdeplint'']"

definition entry_path :: "env \<Rightarrow> string \<Rightarrow> path" where
  "entry_path e checksum = pjoin (pjoin (base_path e) (take 1 checksum)) (drop 1 checksum)"

definition expiry_seconds :: "env \<Rightarrow> exn + real" where
  "expiry_seconds e =
     (case RPMDEPLINT_EXPIRY_SECONDS e of
        Unset \<Rightarrow> Inr 604800
      | Parses r \<Rightarrow> Inr r
      | Malformed s \<Rightarrow> Inl (ValueError (''could not convert string to float: '' @ s)))"

text \<open>
  The inner loop of \<^verbatim>\<open>Cache.clean\<close> over the entries of one subdirectory. The
  \<^verbatim>\<open>is_file()\<close> test and the \<^verbatim>\<open>stat()\<close> that follows it read the same node, so they
  are one case distinction. Every function returns the filesystem as it is when
  the function returns or raises.
\<close>

fun purge_entries :: "real \<Rightarrow> path list \<Rightarrow> fs \<Rightarrow> (exn + unit) \<times> fs" where
  "purge_entries t [] fs = (Inr (), fs)"
| "purge_entries t (entry # es) fs =
     (case stat fs entry of
        Inr (File c m md) \<Rightarrow>
          if m < t then
            (case unlink entry fs of
               Inl e \<Rightarrow> (Inl (OSError e), fs)
             | Inr fs' \<Rightarrow> purge_entries t es fs')
          else purge_entries t es fs
      | _ \<Rightarrow> purge_entries t es fs)"

fun purge_subdirs :: "real \<Rightarrow> path list \<Rightarrow> fs \<Rightarrow> (exn + unit) \<times> fs" where
  "purge_subdirs t [] fs = (Inr (), fs)"
| "purge_subdirs t (subdir # ds) fs =
     (if \<not> is_dir fs subdir then purge_subdirs t ds fs
      else
        (case iterdir fs subdir of
           Inl e \<Rightarrow> (Inl (OSError e), fs)
         | Inr es \<Rightarrow>
             (case purge_entries t es fs of
                (Inl x, fs') \<Rightarrow> (Inl x, fs')
              | (Inr u, fs') \<Rightarrow> purge_subdirs t ds fs')))"

definition clean :: "env \<Rightarrow> real \<Rightarrow> fs \<Rightarrow> (exn + unit) \<times> fs" where
  "clean e now fs =
     (case expiry_seconds e of
        Inl x \<Rightarrow> (Inl x, fs)
      | Inr window \<Rightarrow>
          (let expiry_time = now - window in
           if \<not> is_dir fs (base_path e) then (Inr (), fs)
           else
             (case iterdir fs (base_path e) of
                Inl er \<Rightarrow> (Inl (OSError er), fs)
              | Inr ds \<Rightarrow> purge_subdirs expiry_time ds fs)))"

subsection \<open>What eviction removes\<close>

text \<open>
  An entry is expired at cutoff \<open>t\<close> when it resolves to a regular file last modified
  before \<open>t\<close>. \<open>purged\<close> is the set \<^verbatim>\<open>Cache.clean\<close> is meant to delete: the expired
  regular files \<^verbatim>\<open>base/<dir>/<name>\<close>, two levels below the cache base.
\<close>

definition expired :: "real \<Rightarrow> fs \<Rightarrow> path \<Rightarrow> bool" where
  "expired t fs k = (case stat fs k of Inr (File c m md) \<Rightarrow> m < t | _ \<Rightarrow> False)"

definition purged :: "env \<Rightarrow> real \<Rightarrow> fs \<Rightarrow> path \<Rightarrow> bool" where
  "purged e t fs p =
     (p \<noteq> [] \<and> butlast p \<noteq> [] \<and> butlast (butlast p) = base_path e \<and>
      is_dir fs (base_path e) \<and> is_dir fs (butlast p) \<and> expired t fs p)"

text \<open>Removing the entries a predicate selects, and the predicates that select only files.\<close>

definition prune :: "(path \<Rightarrow> bool) \<Rightarrow> fs \<Rightarrow> fs" where
  "prune R fs = filter (\<lambda>(k, n). \<not> R k) fs"

definition only_files :: "(path \<Rightarrow> bool) \<Rightarrow> fs \<Rightarrow> bool" where
  "only_files R fs = (\<forall>k. R k \<longrightarrow> (\<exists>c m md. lookup fs k = Some (File c m md)))"

text \<open>A small cache tree under \<^verbatim>\<open>/c/rpmdeplint\<close> for the examples.\<close>

definition env0 :: env where
  "env0 = \<lparr>XDG_CACHE_HOME = Some [''c''], home = [''home''], RPMDEPLINT_EXPIRY_SECONDS = Unset\<rparr>"

definition tree0 :: fs where
  "tree0 = [([''c''], Dir True), ([''c'', ''rpmdeplint''], Dir True),
          ([''c'', ''rpmdeplint'', ''a''], Dir True),
          ([''c'', ''rpmdeplint'', ''note''], File ''n'' 5 420),
          ([''c'', ''rpmdeplint'', ''a'', ''old''], File ''x'' 10 420),
          ([''c'', ''rpmdeplint'', ''a'', ''new''], File ''y'' 900000 420),
          ([''c'', ''rpmdeplint'', ''a'', ''sub''], Dir True),
          ([''c'', ''rpmdeplint'', ''a'', ''sub'', ''deep''], File ''z'' 10 420)]"

section \<open>The cache: retrieval\<close>

text \<open>
  The state that \<^verbatim>\<open>Cache.download_repodata_file\<close> works on: the filesystem, every
  state the filesystem has been in (oldest first: what a reader in another process
  can come across), and the URLs requested through \<^verbatim>\<open>requests_session\<close>.
\<close>

record world =
  files :: fs
  seen :: "fs list"
  requests :: "string list"

definition commit :: "fs \<Rightarrow> world \<Rightarrow> world" where
  "commit fs' w = w\<lparr>files := fs', seen := seen w @ [fs']\<rparr>"

text \<open>
  How the download of lines 112 to 121 goes. \<open>Fetched\<close>: the status is good, the body
  arrives in these chunks and \<^verbatim>\<open>f.flush()\<close> writes it out. \<open>Broken\<close>: the request, the
  status check, the stream or a write raises this exception after these chunks
  have been written; \<^verbatim>\<open>requests\<close> raises its own exceptions (all of class \<^verbatim>\<open>OSError\<close>)
  from the request and the status check, before any chunk, while the stream
  \<^verbatim>\<open>response.raw.stream()\<close> raises the errors of \<^verbatim>\<open>urllib3\<close>, which are of class
  \<^verbatim>\<open>Exception\<close> and not \<^verbatim>\<open>OSError\<close>. \<open>Unflushed\<close>: the body arrives in these chunks and
  \<^verbatim>\<open>f.flush()\<close> of line 121 raises this exception, as on a full disk. The chunks
  are shown in the file as soon as they are written; Python may keep them in
  its buffer until the flush.
\<close>

datatype fetch = Fetched "bytes list" | Broken "bytes list" exn | Unflushed "bytes list" exn

text \<open>
  What one call reads from outside: the environment, the clock, the random names
  \<^verbatim>\<open>tempfile.mkstemp\<close> draws (in order), whether \<^verbatim>\<open>os.fdopen\<close> raises, whether the
  \<^verbatim>\<open>f.close()\<close> of the handler of line 127 raises, and the download.
\<close>

record sys =
  environ :: env
  clock :: real
  tmp_names :: "string list"
  fdopen_error :: "exn option"
  close_error :: "exn option"
  http :: "string \<Rightarrow> fetch"

text \<open>An open binary file: the path its inode is linked at and the bytes it reads.\<close>

record handle =
  h_path :: path
  h_data :: bytes

definition utime :: "path \<Rightarrow> real \<Rightarrow> fs \<Rightarrow> fs" where
  "utime p t fs =
     (case lookup fs p of Some (File c m md) \<Rightarrow> fs_put p (File c t md) fs | _ \<Rightarrow> fs)"

definition append_file :: "path \<Rightarrow> bytes \<Rightarrow> real \<Rightarrow> fs \<Rightarrow> fs" where
  "append_file p chunk t fs =
     (case lookup fs p of Some (File c m md) \<Rightarrow> fs_put p (File (c @ chunk) t md) fs | _ \<Rightarrow> fs)"

definition fchmod :: "path \<Rightarrow> nat \<Rightarrow> fs \<Rightarrow> fs" where
  "fchmod p md' fs =
     (case lookup fs p of Some (File c m md) \<Rightarrow> fs_put p (File c m md') fs | _ \<Rightarrow> fs)"

text \<open>
  \<^verbatim>\<open>shutil.rmtree(p, ignore_errors=True)\<close>. A directory that cannot be read cannot be
  emptied: it stays, with what is in it and with the directories above it up to
  \<open>p\<close>; everything else below \<open>p\<close> goes. No error is reported.
\<close>

definition blocked :: "path \<Rightarrow> fs \<Rightarrow> path list" where
  "blocked p fs = map fst (filter (\<lambda>(k, n). prefix p k \<and> n = Dir False) fs)"

definition rmtree :: "path \<Rightarrow> fs \<Rightarrow> fs" where
  "rmtree p fs =
     (if is_dir fs p then
        filter (\<lambda>(k, n). \<not> (prefix p k \<and> list_all (\<lambda>u. \<not> prefix k u \<and> \<not> prefix u k) (blocked p fs))) fs
      else fs)"

text \<open>\<^verbatim>\<open>Path.mkdir(parents=True, exist_ok=True)\<close>, along the prefixes of the directory.\<close>

fun mkdirs :: "path list \<Rightarrow> world \<Rightarrow> errno option \<times> world" where
  "mkdirs [] w = (None, w)"
| "mkdirs (q # qs) w =
     (case lookup (files w) q of
        None \<Rightarrow> mkdirs qs (commit (fs_put q (Dir True) (files w)) w)
      | Some (Dir r) \<Rightarrow> mkdirs qs w
      | Some (File c m md) \<Rightarrow> (Some (if qs = [] then EEXIST else ENOTDIR), w))"

definition mkdir_parents :: "path \<Rightarrow> world \<Rightarrow> errno option \<times> world" where
  "mkdir_parents d w = mkdirs (prefixes d) w"

text \<open>
  \<^verbatim>\<open>tempfile.mkstemp(dir=d)\<close>: the first drawn name \<^verbatim>\<open>tmp<random>\<close> that does not exist
  in \<open>d\<close> is created empty with mode \<^verbatim>\<open>0o600\<close>; \<^verbatim>\<open>FileExistsError\<close> when every draw
  exists.
\<close>

definition mkstemp :: "path \<Rightarrow> string list \<Rightarrow> real \<Rightarrow> fs \<Rightarrow> errno + path \<times> fs" where
  "mkstemp d names t fs =
     (case stat fs d of
        Inl e \<Rightarrow> Inl e
      | Inr (File c m md) \<Rightarrow> Inl ENOTDIR
      | Inr (Dir r) \<Rightarrow>
          (case find (\<lambda>n. lookup fs (d @ [''tmp'' @ n]) = None) names of
             None \<Rightarrow> Inl EEXIST
           | Some n \<Rightarrow> Inr (d @ [''tmp'' @ n], fs_put (d @ [''tmp'' @ n]) (File [] t 384) fs)))"

text \<open>
  \<^verbatim>\<open>os.rename(src, dst)\<close> for a regular file \<open>src\<close>, the only use the source makes of
  it: \<open>dst\<close> is replaced in one step, unless it is a directory.
\<close>

definition rename :: "path \<Rightarrow> path \<Rightarrow> fs \<Rightarrow> errno + fs" where
  "rename src dst fs =
     (case stat fs src of
        Inl e \<Rightarrow> Inl e
      | Inr (Dir r) \<Rightarrow> Inl EISDIR
      | Inr (File c m md) \<Rightarrow>
          (case stat fs (butlast dst) of
             Inl e \<Rightarrow> Inl e
           | Inr (File c' m' md') \<Rightarrow> Inl ENOTDIR
           | Inr (Dir r) \<Rightarrow>
               (case lookup fs dst of
                  Some (Dir r') \<Rightarrow> Inl EISDIR
                | _ \<Rightarrow> if src = dst then Inr fs else Inr (fs_put dst (File c m md) (fs_del src fs)))))"

text \<open>\<^verbatim>\<open>os.path.basename\<close>: what follows the last slash.\<close>

definition basename :: "string \<Rightarrow> string" where
  "basename s = rev (takeWhile (\<lambda>c. c \<noteq> CHR ''/'') (rev s))"

definition write_chunks :: "path \<Rightarrow> bytes list \<Rightarrow> real \<Rightarrow> world \<Rightarrow> world" where
  "write_chunks p chunks t w = fold (\<lambda>chunk w'. commit (append_file p chunk t (files w')) w') chunks w"

text \<open>Lines 112 to 116: the request and the loop that writes the chunks to the temporary file.\<close>

definition stream_body :: "sys \<Rightarrow> string \<Rightarrow> path \<Rightarrow> world \<Rightarrow> (exn + unit) \<times> world" where
  "stream_body s url temp_path w =
     (let w1 = w\<lparr>requests := requests w @ [url]\<rparr> in
      case http s url of
        Fetched chunks \<Rightarrow> (Inr (), write_chunks temp_path chunks (clock s) w1)
      | Broken chunks x \<Rightarrow> (Inl x, write_chunks temp_path chunks (clock s) w1)
      | Unflushed chunks x \<Rightarrow> (Inr (), write_chunks temp_path chunks (clock s) w1))"

text \<open>
  Lines 110 to 130. The inner \<^verbatim>\<open>except OSError\<close> turns an \<^verbatim>\<open>OSError\<close> of the download
  into \<^verbatim>\<open>RepoDownloadError\<close>; after it come the flush, \<^verbatim>\<open>fchmod\<close> and the rename to the
  entry's path, whose exceptions are not translated. The outer \<^verbatim>\<open>except Exception\<close>
  closes the file, unlinks the temporary file and raises again; when the close
  raises, its exception leaves the handler and the unlink is not reached.
\<close>

definition fetch_to_cache :: "sys \<Rightarrow> string \<Rightarrow> path \<Rightarrow> path \<Rightarrow> world \<Rightarrow> (exn + handle) \<times> world" where
  "fetch_to_cache s url temp_path filepath_in_cache w =
     (case
        (case stream_body s url temp_path w of
           (Inl x, w1) \<Rightarrow>
             (Inl (if is_OSError x
                   then RepoDownloadError (''Failed to download repodata file '' @ basename url)
                   else x), w1)
         | (Inr u, w1) \<Rightarrow>
             (case http s url of
                Unflushed chunks x \<Rightarrow> (Inl x, w1)
              | _ \<Rightarrow>
                  (let w2 = commit (fchmod temp_path 420 (files w1)) w1 in
                   case rename temp_path filepath_in_cache (files w2) of
                     Inl e \<Rightarrow> (Inl (OSError e), w2)
                   | Inr fs' \<Rightarrow>
                       (Inr \<lparr>h_path = filepath_in_cache,
                             h_data = (case lookup (files w2) temp_path of
                                         Some (File c m md) \<Rightarrow> c | _ \<Rightarrow> [])\<rparr>,
                        commit fs' w2))))
      of
        (Inr h, w3) \<Rightarrow> (Inr h, w3)
      | (Inl x, w3) \<Rightarrow>
          if is_Exception x then
            (case close_error s of
               Some y \<Rightarrow> (Inl y, w3)
             | None \<Rightarrow>
                 (case unlink temp_path (files w3) of
                    Inl e \<Rightarrow> (Inl (OSError e), w3)
                  | Inr fs' \<Rightarrow> (Inl x, commit fs' w3)))
          else (Inl x, w3))"

text \<open>Lines 102 to 109, then the download.\<close>

definition cache_miss :: "sys \<Rightarrow> string \<Rightarrow> path \<Rightarrow> world \<Rightarrow> (exn + handle) \<times> world" where
  "cache_miss s url filepath_in_cache w =
     (case mkdir_parents (butlast filepath_in_cache) w of
        (Some e, w1) \<Rightarrow> (Inl (OSError e), w1)
      | (None, w1) \<Rightarrow>
          (case mkstemp (butlast filepath_in_cache) (tmp_names s) (clock s) (files w1) of
             Inl e \<Rightarrow> (Inl (OSError e), w1)
           | Inr (temp_path, fs2) \<Rightarrow>
               (case fdopen_error s of
                  Some x \<Rightarrow> (Inl x, commit fs2 w1)
                | None \<Rightarrow> fetch_to_cache s url temp_path filepath_in_cache (commit fs2 w1))))"

definition download_repodata_file :: "sys \<Rightarrow> string \<Rightarrow> string \<Rightarrow> world \<Rightarrow> (exn + handle) \<times> world" where
  "download_repodata_file s checksum url w =
     (let filepath_in_cache = entry_path (environ s) checksum in
      case open_rb (files w) filepath_in_cache of
        Inr c \<Rightarrow>
          (Inr \<lparr>h_path = filepath_in_cache, h_data = c\<rparr>,
           commit (utime filepath_in_cache (clock s) (files w)) w)
      | Inl e \<Rightarrow>
          if e = ENOENT then cache_miss s url filepath_in_cache w
          else if e = EISDIR then
            cache_miss s url filepath_in_cache (commit (rmtree filepath_in_cache (files w)) w)
          else (Inl (OSError e), w))"

subsection \<open>Well-formed filesystems and checksums\<close>

text \<open>
  In a well-formed filesystem every entry lies in a directory that resolves. A
  checksum is a non-empty string of lower-case hexadecimal digits.
\<close>

definition wf_fs :: "fs \<Rightarrow> bool" where
  "wf_fs fs = list_all (\<lambda>(k, n). k \<noteq> [] \<and> is_dir fs (butlast k)) fs"

definition hexdigest :: "string \<Rightarrow> bool" where
  "hexdigest c = (c \<noteq> [] \<and> list_all (\<lambda>x. x \<in> set ''0123456789abcdef'') c)"

text \<open>A cache that holds the entry of checksum \<^verbatim>\<open>ab12\<close>, and the surroundings of one call.\<close>

definition tree1 :: fs where
  "tree1 = [([''c''], Dir True), ([''c'', ''rpmdeplint''], Dir True),
          ([''c'', ''rpmdeplint'', ''a''], Dir True),
          ([''c'', ''rpmdeplint'', ''a'', ''b12''], File ''data'' 10 420)]"

definition world1 :: world where
  "world1 = \<lparr>files = tree1, seen = [tree1], requests = []\<rparr>"

definition sys1 :: sys where
  "sys1 = \<lparr>environ = env0, clock = 1000, tmp_names = [''k3x9''], fdopen_error = None,
           close_error = None, http = (\<lambda>url. Fetched [''he'', ''llo''])\<rparr>"

subsection \<open>What readers of the cache can see\<close>

text \<open>
  \<open>nofile fs p\<close>: no regular file is stored at \<open>p\<close>. \<open>extends Q w w'\<close>: the states of
  the filesystem recorded from \<open>w\<close> to \<open>w'\<close> all satisfy \<open>Q\<close>.
\<close>

definition nofile :: "fs \<Rightarrow> path \<Rightarrow> bool" where
  "nofile fs p = (case lookup fs p of Some (File c m md) \<Rightarrow> False | _ \<Rightarrow> True)"

definition extends :: "(fs \<Rightarrow> bool) \<Rightarrow> world \<Rightarrow> world \<Rightarrow> bool" where
  "extends Q w w' = (\<exists>xs. seen w' = seen w @ xs \<and> list_all Q xs)"

definition same_off :: "path \<Rightarrow> fs \<Rightarrow> fs \<Rightarrow> bool" where
  "same_off t prev fs = (\<forall>q. q \<noteq> t \<longrightarrow> lookup fs q = lookup prev q)"

text \<open>
  What a reader that opens \<open>p\<close> may find while \<open>url\<close> is being fetched: no regular
  file, or one that holds the whole body the server sent.
\<close>

definition reader_ok :: "sys \<Rightarrow> string \<Rightarrow> path \<Rightarrow> fs \<Rightarrow> bool" where
  "reader_ok s url p fs =
     (case open_rb fs p of
        Inl e \<Rightarrow> True
      | Inr data \<Rightarrow>
          (case http s url of
             Fetched cs \<Rightarrow> data = concat cs
           | Broken cs x \<Rightarrow> False
           | Unflushed cs x \<Rightarrow> False))"

text \<open>
  An empty cache, and four downloads that fail: the status check raises the
  \<^verbatim>\<open>HTTPError\<close> of \<^verbatim>\<open>requests\<close> before any chunk; the stream raises the \<^verbatim>\<open>ProtocolError\<close>
  of \<^verbatim>\<open>urllib3\<close> after the first chunk; the user interrupts after the first chunk;
  the disk is full, so that the flush raises and the close in the handler raises
  again.
\<close>

definition tree2 :: fs where
  "tree2 = [([''c''], Dir True), ([''c'', ''rpmdeplint''], Dir True)]"

definition world2 :: world where
  "world2 = \<lparr>files = tree2, seen = [tree2], requests = []\<rparr>"

definition sys2 :: sys where
  "sys2 = sys1\<lparr>http := (\<lambda>url. Broken [] (RequestException ''404 Client Error''))\<rparr>"

definition sys_stream_error :: sys where
  "sys_stream_error = sys1\<lparr>http := (\<lambda>url. Broken [''he''] (OtherException ''ProtocolError''))\<rparr>"

definition sys_interrupt :: sys where
  "sys_interrupt = sys1\<lparr>http := (\<lambda>url. Broken [''he''] KeyboardInterrupt)\<rparr>"

definition sys_disk_full :: sys where
  "sys_disk_full = sys1\<lparr>close_error := Some (OSError ENOSPC),
                         http := (\<lambda>url. Unflushed [''he'', ''llo''] (OSError ENOSPC))\<rparr>"

text \<open>
  Two caches of the old layout, with a directory where the entry of \<^verbatim>\<open>ab12\<close> belongs:
  one that can be removed, and one that holds a directory that cannot be read.
\<close>

definition tree3 :: fs where
  "tree3 = [([''c''], Dir True), ([''c'', ''rpmdeplint''], Dir True),
            ([''c'', ''rpmdeplint'', ''a''], Dir True),
            ([''c'', ''rpmdeplint'', ''a'', ''b12''], Dir True),
            ([''c'', ''rpmdeplint'', ''a'', ''b12'', ''primary.xml.gz''], File ''old'' 5 420)]"

definition world3 :: world where
  "world3 = \<lparr>files = tree3, seen = [tree3], requests = []\<rparr>"

definition tree4 :: fs where
  "tree4 = [([''c''], Dir True), ([''c'', ''rpmdeplint''], Dir True),
            ([''c'', ''rpmdeplint'', ''a''], Dir True),
            ([''c'', ''rpmdeplint'', ''a'', ''b12''], Dir True),
            ([''c'', ''rpmdeplint'', ''a'', ''b12'', ''locked''], Dir False)]"

definition world4 :: world where
  "world4 = \<lparr>files = tree4, seen = [tree4], requests = []\<rparr>"

section \<open>Repositories\<close>

text \<open>
  A \<^verbatim>\<open>Repo\<close> object: the constructor's arguments, and the two attributes that
  \<^verbatim>\<open>download_repodata\<close> sets later and \<^verbatim>\<open>download_package_header\<close> reads. Of the
  \<^verbatim>\<open>librepo.Handle\<close> only the option \<^verbatim>\<open>local\<close> is read by the code modelled here.
\<close>

record librepo_handle =
  local :: bool

record repo =
  name :: string
  baseurl :: "string option"
  metalink :: "string option"
  skip_if_unavailable :: bool
  librepo_handle :: "librepo_handle option"
  root_path :: "string option"

text \<open>Python's truth value of an optional string: \<^verbatim>\<open>None\<close> and \<^verbatim>\<open>""\<close> are false.\<close>

definition truthy :: "string option \<Rightarrow> bool" where
  "truthy v = (case v of None \<Rightarrow> False | Some s \<Rightarrow> s \<noteq> [])"

definition Repo_init :: "string \<Rightarrow> string option \<Rightarrow> string option \<Rightarrow> bool \<Rightarrow> exn + repo" where
  "Repo_init repo_name b m skip =
     (if \<not> truthy b \<and> \<not> truthy m
      then Inl (RuntimeError ''Must specify either baseurl or metalink for repo'')
      else Inr \<lparr>name = repo_name, baseurl = b, metalink = m, skip_if_unavailable = skip,
                librepo_handle = None, root_path = None\<rparr>)"

subsection \<open>Loading the system configuration\<close>

text \<open>
  The configuration as \<^verbatim>\<open>RawConfigParser\<close> has read it: the sections in order, each
  with its options (keys in lower case) and their values. \<^verbatim>\<open>getboolean\<close> accepts the
  words of \<^verbatim>\<open>BOOLEAN_STATES\<close> in any case and raises \<^verbatim>\<open>ValueError\<close> on anything else.
\<close>

type_synonym options = "(string \<times> string) list"

definition lower :: "char \<Rightarrow> char" where
  "lower c =
     (case map_of (zip ''ABCDEFGHIJKLMNOPQRSTUVWXYZ'' ''abcdefghijklmnopqrstuvwxyz'') c of
        None \<Rightarrow> c
      | Some l \<Rightarrow> l)"

definition getboolean :: "string \<Rightarrow> exn + bool" where
  "getboolean v =
     (if map lower v \<in> set [''1'', ''yes'', ''true'', ''on''] then Inr True
      else if map lower v \<in> set [''0'', ''no'', ''false'', ''off''] then Inr False
      else Inl (ValueError (''Not a boolean: '' @ v)))"

text \<open>
  \<^verbatim>\<open>s.replace("$" + name, value)\<close>: every occurrence, from the left, without
  overlaps; and \<^verbatim>\<open>substitute_yumvars\<close>, one variable after the other in the order
  of the dictionary.
\<close>

fun replace_var :: "string \<Rightarrow> string \<Rightarrow> string \<Rightarrow> string" where
  "replace_var var val [] = []"
| "replace_var var val (c # cs) =
     (if c = CHR ''$'' \<and> prefix var cs
      then val @ replace_var var val (drop (length var) cs)
      else c # replace_var var val cs)"

definition substitute_yumvars :: "string \<Rightarrow> options \<Rightarrow> string" where
  "substitute_yumvars s yumvars = fold (\<lambda>(var, val) s'. replace_var var val s') yumvars s"

text \<open>
  The body of the loop of \<^verbatim>\<open>Repo.from_yum_config\<close> for one section: \<open>Inr None\<close> when
  the section is passed over, \<open>Inr (Some r)\<close> when it yields \<open>r\<close>, \<open>Inl x\<close> when it
  raises.
\<close>

definition section_repo :: "options \<Rightarrow> string \<times> options \<Rightarrow> exn + repo option" where
  "section_repo yumvars sec =
     (case sec of (section, opts) \<Rightarrow>
      if section = ''main'' then Inr None
      else
        (case (case map_of opts ''enabled'' of None \<Rightarrow> Inr True | Some v \<Rightarrow> getboolean v) of
           Inl x \<Rightarrow> Inl x
         | Inr False \<Rightarrow> Inr None
         | Inr True \<Rightarrow>
             (case (case map_of opts ''skip_if_unavailable'' of
                      None \<Rightarrow> Inr False
                    | Some v \<Rightarrow> getboolean v) of
                Inl x \<Rightarrow> Inl x
              | Inr skip \<Rightarrow>
                  (case map_of opts ''baseurl'' of
                     Some v \<Rightarrow>
                       map_sum id Some
                         (Repo_init section (Some (substitute_yumvars v yumvars)) None skip)
                   | None \<Rightarrow>
                       (case map_of opts ''metalink'' of
                          Some v \<Rightarrow>
                            map_sum id Some
                              (Repo_init section None (Some (substitute_yumvars v yumvars)) skip)
                        | None \<Rightarrow>
                            (case map_of opts ''mirrorlist'' of
                               Some v \<Rightarrow>
                                 map_sum id Some
                                   (Repo_init section None
                                      (Some (substitute_yumvars v yumvars)) skip)
                             | None \<Rightarrow>
                                 Inl (ValueError (''Yum config section '' @ section @
                                      '' has no baseurl or metalink or mirrorlist''))))))))"

text \<open>
  The generator: the repositories yielded, in order, and the exception that ends
  the iteration, if one does.
\<close>

fun from_yum_config :: "options \<Rightarrow> (string \<times> options) list \<Rightarrow> repo list \<times> exn option" where
  "from_yum_config yumvars [] = ([], None)"
| "from_yum_config yumvars (sec # rest) =
     (case section_repo yumvars sec of
        Inl x \<Rightarrow> ([], Some x)
      | Inr None \<Rightarrow> from_yum_config yumvars rest
      | Inr (Some r) \<Rightarrow>
          (case from_yum_config yumvars rest of (rs, e) \<Rightarrow> (r # rs, e)))"

subsection \<open>Package headers\<close>

text \<open>
  String paths, as \<^verbatim>\<open>os.path\<close> and \<^verbatim>\<open>open\<close> take them. \<open>components\<close> gives the path of
  the filesystem that a string names (relative paths are taken from the root).
\<close>

definition os_path_join :: "string \<Rightarrow> string \<Rightarrow> string" where
  "os_path_join a b =
     (if b \<noteq> [] \<and> hd b = CHR ''/'' then b
      else if a = [] \<or> last a = CHR ''/'' then a @ b
      else a @ ''/'' @ b)"

fun split_slash :: "string \<Rightarrow> string list" where
  "split_slash [] = [[]]"
| "split_slash (c # cs) =
     (if c = CHR ''/'' then [] # split_slash cs
      else (case split_slash cs of [] \<Rightarrow> [[c]] | x # xs \<Rightarrow> (c # x) # xs))"

definition components :: "string \<Rightarrow> path" where
  "components s = filter (\<lambda>x. x \<noteq> []) (split_slash s)"

text \<open>
  What lies outside the repository's code: \<^verbatim>\<open>librepo.download_packages\<close> on one
  target, from the location, the base URL, the destination directory, the end of
  the byte range and the filesystem to the target's \<^verbatim>\<open>err\<close>, its \<^verbatim>\<open>local_path\<close> and the
  filesystem afterwards; and \<^verbatim>\<open>ts.hdrFromFdno\<close>, true when the bytes of the file
  parse as a complete header and false when \<^verbatim>\<open>rpm.error\<close> is raised.
\<close>

record outside =
  download_packages :: "string \<Rightarrow> string \<Rightarrow> string \<Rightarrow> nat \<Rightarrow> fs \<Rightarrow> string option \<times> string \<times> fs"
  hdrFromFdno :: "bytes \<Rightarrow> bool"

text \<open>The filesystem, and the byte range ends of the downloads issued so far, in order.\<close>

record fetcher =
  disk :: fs
  attempts :: "nat list"

definition is_header_complete :: "outside \<Rightarrow> fs \<Rightarrow> string \<Rightarrow> exn + bool" where
  "is_header_complete out fs local_path =
     (case open_rb fs (components local_path) of
        Inl e \<Rightarrow> if e = ENOENT then Inr False else Inl (OSError e)
      | Inr f \<Rightarrow> Inr (hdrFromFdno out f))"

text \<open>
  The loop of \<^verbatim>\<open>download_package_header\<close> over the byte range ends that are left;
  \<open>last_path\<close> is \<^verbatim>\<open>target.local_path\<close> of the iteration before.
\<close>

fun fetch_ranges ::
  "outside \<Rightarrow> repo \<Rightarrow> string \<Rightarrow> string \<Rightarrow> string \<Rightarrow> nat list \<Rightarrow> string \<Rightarrow> fetcher \<Rightarrow>
   (exn + string) \<times> fetcher" where
  "fetch_ranges out self root_dir location burl [] last_path st = (Inr last_path, st)"
| "fetch_ranges out self root_dir location burl (byterangeend # rest) last_path st =
     (case download_packages out location burl root_dir byterangeend (disk st) of
        (err, local_path, disk') \<Rightarrow>
          (let st' = \<lparr>disk = disk', attempts = attempts st @ [byterangeend]\<rparr> in
           if truthy err \<and> err \<noteq> Some ''Already downloaded'' then
             (Inl (PackageDownloadError
                    (''Failed to download '' @ location @ '' from repo '' @ name self @ '': '' @
                     (case err of None \<Rightarrow> [] | Some m \<Rightarrow> m))), st')
           else
             (case is_header_complete out disk' local_path of
                Inl x \<Rightarrow> (Inl x, st')
              | Inr True \<Rightarrow> (Inr local_path, st')
              | Inr False \<Rightarrow> fetch_ranges out self root_dir location burl rest local_path st')))"

definition download_package_header ::
  "outside \<Rightarrow> repo \<Rightarrow> string \<Rightarrow> string \<Rightarrow> fetcher \<Rightarrow> (exn + string) \<times> fetcher" where
  "download_package_header out self location burl st =
     (case root_path self of
        None \<Rightarrow> (Inl (AttributeError ''_root_path''), st)
      | Some root_dir \<Rightarrow>
          (let local_path = os_path_join root_dir (basename location) in
           if (case librepo_handle self of None \<Rightarrow> False | Some h \<Rightarrow> local h)
           then (Inr local_path, st)
           else
             (case is_header_complete out (disk st) local_path of
                Inl x \<Rightarrow> (Inl x, st)
              | Inr True \<Rightarrow> (Inr local_path, st)
              | Inr False \<Rightarrow>
                  fetch_ranges out self root_dir location burl
                    [100000, 1000000, 5000000, 0] local_path st)))"


subsection \<open>A simulated remote package\<close>

text \<open>
  Modelled from the spec: the byte-range download that \<^verbatim>\<open>librepo\<close> provides, which is
  not part of this repository. For a ceiling other than 0 it stores the bytes
  \<open>[0, ceiling)\<close> of the remote package at the destination directory joined with the
  base name of the location, and for the ceiling 0 the whole package; it reports no
  error. A prefix of the package is header-complete when it holds the first \<open>n\<close>
  bytes, \<open>n\<close> being the size of the package's header.
\<close>

definition range_server ::
  "bytes \<Rightarrow> real \<Rightarrow> string \<Rightarrow> string \<Rightarrow> string \<Rightarrow> nat \<Rightarrow> fs \<Rightarrow> string option \<times> string \<times> fs" where
  "range_server pkg now location burl dest byterangeend fs =
     (None, os_path_join dest (basename location),
      fs_put (components (os_path_join dest (basename location)))
        (File (if byterangeend = 0 then pkg else take byterangeend pkg) now 420) fs)"

definition header_needs :: "nat \<Rightarrow> bytes \<Rightarrow> bool" where
  "header_needs n f = (n \<le> length f)"

definition simulated :: "bytes \<Rightarrow> real \<Rightarrow> nat \<Rightarrow> outside" where
  "simulated pkg now n = \<lparr>download_packages = range_server pkg now, hdrFromFdno = header_needs n\<rparr>"

text \<open>The byte range ends that the escalation should issue for a header of \<open>n\<close> bytes.\<close>

definition ceilings_for :: "nat \<Rightarrow> nat list" where
  "ceilings_for n =
     (if n \<le> 100000 then [100000]
      else if n \<le> 1000000 then [100000, 1000000]
      else if n \<le> 5000000 then [100000, 1000000, 5000000]
      else [100000, 1000000, 5000000, 0])"

text \<open>A remote repository whose packages are kept in \<^verbatim>\<open>/var/tmp/rpmdeplint-x\<close>.\<close>

definition remote_repo :: repo where
  "remote_repo = \<lparr>name = ''updates'', baseurl = Some ''http://example.invalid/updates'',
                  metalink = None, skip_if_unavailable = False,
                  librepo_handle = Some \<lparr>local = False\<rparr>,
                  root_path = Some ''/var/tmp/rpmdeplint-x''\<rparr>"

definition tree5 :: fs where
  "tree5 = [([''var''], Dir True), ([''var'', ''tmp''], Dir True),
            ([''var'', ''tmp'', ''rpmdeplint-x''], Dir True)]"



section \<open>Properties of eviction\<close>

lemma map_of_prune: "map_of (prune R fs) p = (if R p then None else map_of fs p)"
  by (induction fs) (auto simp: prune_def)

lemma lookup_prune:
  "lookup (prune R fs) p = (if p \<noteq> [] \<and> R p then None else lookup fs p)"
  by (simp add: lookup_def map_of_prune)

lemma only_files_root: "only_files R fs \<Longrightarrow> \<not> R []"
  by (auto simp: only_files_def lookup_def)

lemma walk_prune:
  "only_files R fs \<Longrightarrow> (walk (prune R fs) qs = None) = (walk fs qs = None)"
proof (induction qs)
  case Nil
  then show ?case by simp
next
  case (Cons q qs)
  show ?case
  proof (cases "R q")
    case True
    with Cons.prems obtain c m md where "lookup fs q = Some (File c m md)"
      by (auto simp: only_files_def)
    moreover from True Cons.prems have "q \<noteq> []" using only_files_root by blast
    ultimately show ?thesis using True by (simp add: lookup_prune)
  next
    case False
    then show ?thesis using Cons by (simp add: lookup_prune split: option.splits node.splits)
  qed
qed

lemma stat_prune:
  assumes "only_files R fs"
  shows "(stat (prune R fs) k = Inr n) = (\<not> R k \<and> stat fs k = Inr n)"
proof -
  have w: "(walk (prune R fs) (ancestors k) = None) = (walk fs (ancestors k) = None)"
    using assms by (rule walk_prune)
  have r: "\<not> R []" using assms by (rule only_files_root)
  show ?thesis
    using w r by (cases "k = []") (auto simp: stat_def lookup_prune split: option.splits)
qed

lemma fs_del_prune: "fs_del p fs = prune (\<lambda>k. k = p) fs"
  by (simp add: fs_del_def prune_def)

lemma prune_prune: "prune R (prune Q fs) = prune (\<lambda>k. Q k \<or> R k) fs"
  by (induction fs) (auto simp: prune_def)

lemma prune_cong: "(\<And>k n. (k, n) \<in> set fs \<Longrightarrow> R k = Q k) \<Longrightarrow> prune R fs = prune Q fs"
  by (induction fs) (auto simp: prune_def)

lemma expired_iff: "expired t fs k = (\<exists>c m md. stat fs k = Inr (File c m md) \<and> m < t)"
  by (simp add: expired_def split: sum.splits node.splits)

lemma is_dir_iff: "is_dir fs k = (\<exists>r. stat fs k = Inr (Dir r))"
  by (simp add: is_dir_def split: sum.splits node.splits)

lemma expired_prune:
  "only_files R fs \<Longrightarrow> expired t (prune R fs) k = (\<not> R k \<and> expired t fs k)"
  unfolding expired_iff by (simp only: stat_prune) blast

lemma is_dir_prune:
  "only_files R fs \<Longrightarrow> is_dir (prune R fs) k = (\<not> R k \<and> is_dir fs k)"
  unfolding is_dir_iff by (simp only: stat_prune) blast

lemma expired_file: "expired t fs k \<Longrightarrow> \<exists>c m md. lookup fs k = Some (File c m md)"
  by (auto simp: expired_def stat_def split: option.splits sum.splits node.splits)

lemma purge_entries_prune:
  "purge_entries t es fs = (Inr (), prune (\<lambda>k. k \<in> set es \<and> expired t fs k) fs)"
proof (induction es arbitrary: fs)
  case Nil
  show ?case by (simp add: prune_def)
next
  case (Cons e es)
  show ?case
  proof (cases "expired t fs e")
    case True
    then obtain c m md where st: "stat fs e = Inr (File c m md)" and old: "m < t"
      unfolding expired_iff by blast
    have of: "only_files (\<lambda>k. k = e) fs"
      using expired_file[OF True] by (simp add: only_files_def)
    have "purge_entries t (e # es) fs = purge_entries t es (fs_del e fs)"
      using st old by (simp add: unlink_def)
    also have "\<dots> = (Inr (), prune (\<lambda>k. k \<in> set es \<and> expired t (fs_del e fs) k) (fs_del e fs))"
      by (rule Cons.IH)
    also have "prune (\<lambda>k. k \<in> set es \<and> expired t (fs_del e fs) k) (fs_del e fs)
        = prune (\<lambda>k. k \<in> set (e # es) \<and> expired t fs k) fs"
      unfolding fs_del_prune prune_prune
      by (rule prune_cong) (use True expired_prune[OF of] in auto)
    finally show ?thesis .
  next
    case False
    then have "purge_entries t (e # es) fs = purge_entries t es fs"
      unfolding expired_iff by (cases "stat fs e") (auto split: node.splits)
    also have "\<dots> = (Inr (), prune (\<lambda>k. k \<in> set es \<and> expired t fs k) fs)"
      by (rule Cons.IH)
    also have "prune (\<lambda>k. k \<in> set es \<and> expired t fs k) fs
        = prune (\<lambda>k. k \<in> set (e # es) \<and> expired t fs k) fs"
      by (rule prune_cong) (use False in auto)
    finally show ?thesis .
  qed
qed

lemma purge_subdirs_prune:
  "\<forall>d \<in> set ds. stat fs d \<noteq> Inr (Dir False) \<Longrightarrow>
   purge_subdirs t ds fs =
     (Inr (), prune (\<lambda>k. k \<noteq> [] \<and> butlast k \<in> set ds \<and> is_dir fs (butlast k) \<and> expired t fs k) fs)"
proof (induction ds arbitrary: fs)
  case Nil
  show ?case by (simp add: prune_def)
next
  case (Cons d ds)
  show ?case
  proof (cases "is_dir fs d")
    case False
    then have "purge_subdirs t (d # ds) fs = purge_subdirs t ds fs" by simp
    also have "\<dots> = (Inr (), prune (\<lambda>k. k \<noteq> [] \<and> butlast k \<in> set ds \<and> is_dir fs (butlast k) \<and> expired t fs k) fs)"
      using Cons.prems by (intro Cons.IH) simp
    also have "prune (\<lambda>k. k \<noteq> [] \<and> butlast k \<in> set ds \<and> is_dir fs (butlast k) \<and> expired t fs k) fs
        = prune (\<lambda>k. k \<noteq> [] \<and> butlast k \<in> set (d # ds) \<and> is_dir fs (butlast k) \<and> expired t fs k) fs"
      by (rule prune_cong) (use False in auto)
    finally show ?thesis .
  next
    case True
    then have st: "stat fs d = Inr (Dir True)"
      using Cons.prems unfolding is_dir_iff by (cases "stat fs d") auto
    let ?R = "\<lambda>k. k \<in> set (children fs d) \<and> expired t fs k"
    let ?fs1 = "prune ?R fs"
    have of: "only_files ?R fs"
      using expired_file by (auto simp: only_files_def)
    have keep: "\<forall>d' \<in> set ds. stat ?fs1 d' \<noteq> Inr (Dir False)"
      using Cons.prems by (simp add: stat_prune[OF of])
    have "purge_subdirs t (d # ds) fs = purge_subdirs t ds ?fs1"
      using True st by (simp add: iterdir_def purge_entries_prune)
    also have "\<dots> = (Inr (), prune (\<lambda>k. k \<noteq> [] \<and> butlast k \<in> set ds \<and> is_dir ?fs1 (butlast k) \<and> expired t ?fs1 k) ?fs1)"
      using keep by (rule Cons.IH)
    also have "prune (\<lambda>k. k \<noteq> [] \<and> butlast k \<in> set ds \<and> is_dir ?fs1 (butlast k) \<and> expired t ?fs1 k) ?fs1
        = prune (\<lambda>k. k \<noteq> [] \<and> butlast k \<in> set (d # ds) \<and> is_dir fs (butlast k) \<and> expired t fs k) fs"
      unfolding prune_prune
    proof (rule prune_cong)
      fix k n assume kn: "(k, n) \<in> set fs"
      have notdir: "\<And>q. is_dir fs q \<Longrightarrow> \<not> expired t fs q"
        unfolding is_dir_iff expired_iff by auto
      have ch: "k \<in> set (children fs d) = (k \<noteq> [] \<and> butlast k = d)"
        using kn by (force simp: children_def)
      show "(?R k \<or> k \<noteq> [] \<and> butlast k \<in> set ds \<and> is_dir ?fs1 (butlast k) \<and> expired t ?fs1 k)
          = (k \<noteq> [] \<and> butlast k \<in> set (d # ds) \<and> is_dir fs (butlast k) \<and> expired t fs k)"
        unfolding is_dir_prune[OF of] expired_prune[OF of] ch
        using True notdir by auto
    qed
    finally show ?thesis .
  qed
qed

lemma is_dir_listed: "is_dir fs d \<Longrightarrow> d \<noteq> [] \<Longrightarrow> d \<in> fst ` set fs"
proof -
  assume "is_dir fs d" and "d \<noteq> []"
  then obtain r where "map_of fs d = Some (Dir r)"
    unfolding is_dir_iff by (auto simp: stat_def lookup_def split: option.splits)
  then have "(d, Dir r) \<in> set fs" by (rule map_of_SomeD)
  then show ?thesis by force
qed

lemma stat_simps0:
  "ancestors [a] = [[]]" "ancestors [a, b] = [[], [a]]" "ancestors [a, b, c] = [[], [a], [a, b]]"
  "ancestors [a, b, c, d] = [[], [a], [a, b], [a, b, c]]"
  "ancestors [a, b, c, d, f] = [[], [a], [a, b], [a, b, c], [a, b, c, d]]"
  by (simp_all add: ancestors_def)

text \<open>
  Claim C3, as the code has it. \<^verbatim>\<open>Cache.clean\<close> takes the cutoff \<open>now - window\<close>, where
  the window is 604800 seconds unless \<^verbatim>\<open>RPMDEPLINT_EXPIRY_SECONDS\<close> overrides it, and,
  when the cache base and every entry directly below it can be listed, removes
  exactly the regular files two levels below the base whose modification time is
  before the cutoff. Every other entry stays as it was, in place: entries that are
  not regular files are passed over, and the result does not depend on the order of
  the listing, since \<open>purged\<close> reads the filesystem only through path lookups.
\<close>

theorem clean_purges_expired:
  assumes "expiry_seconds e = Inr window"
    and "\<forall>d \<in> set (base_path e # children fs (base_path e)). stat fs d \<noteq> Inr (Dir False)"
  shows "clean e now fs = (Inr (), filter (\<lambda>(k, n). \<not> purged e (now - window) fs k) fs)"
proof (cases "is_dir fs (base_path e)")
  case False
  have "filter (\<lambda>(k, n). \<not> purged e (now - window) fs k) fs = fs"
    using False by (simp add: purged_def)
  then show ?thesis using assms(1) False by (simp add: clean_def)
next
  case True
  let ?t = "now - window"
  let ?b = "base_path e"
  have st: "stat fs ?b = Inr (Dir True)"
    using True assms(2) unfolding is_dir_iff by (cases "stat fs ?b") auto
  have "clean e now fs = purge_subdirs ?t (children fs ?b) fs"
    using assms(1) True st by (simp add: clean_def iterdir_def)
  also have "\<dots> = (Inr (), prune (\<lambda>k. k \<noteq> [] \<and> butlast k \<in> set (children fs ?b) \<and>
        is_dir fs (butlast k) \<and> expired ?t fs k) fs)"
    using assms(2) by (intro purge_subdirs_prune) simp
  also have "prune (\<lambda>k. k \<noteq> [] \<and> butlast k \<in> set (children fs ?b) \<and>
        is_dir fs (butlast k) \<and> expired ?t fs k) fs = prune (purged e ?t fs) fs"
  proof (rule prune_cong)
    fix k n assume "(k, n) \<in> set fs"
    have "is_dir fs (butlast k) \<Longrightarrow> butlast k \<noteq> [] \<Longrightarrow> butlast k \<in> fst ` set fs"
      by (rule is_dir_listed)
    then show "(k \<noteq> [] \<and> butlast k \<in> set (children fs ?b) \<and> is_dir fs (butlast k) \<and> expired ?t fs k)
        = purged e ?t fs k"
      using True by (auto simp: purged_def children_def)
  qed
  finally show ?thesis by (simp add: prune_def)
qed

theorem clean_purges_expired_witness:
  "clean env0 1000000 tree0 =
     (Inr (), [([''c''], Dir True), ([''c'', ''rpmdeplint''], Dir True),
          ([''c'', ''rpmdeplint'', ''a''], Dir True),
          ([''c'', ''rpmdeplint'', ''note''], File ''n'' 5 420),
          ([''c'', ''rpmdeplint'', ''a'', ''new''], File ''y'' 900000 420),
          ([''c'', ''rpmdeplint'', ''a'', ''sub''], Dir True),
          ([''c'', ''rpmdeplint'', ''a'', ''sub'', ''deep''], File ''z'' 10 420)])"
proof -
  have b: "base_path env0 = [''c'', ''rpmdeplint'']"
    by (simp add: env0_def base_path_def)
  have h1: "expiry_seconds env0 = Inr 604800"
    by (simp add: env0_def expiry_seconds_def)
  have h2: "\<forall>d \<in> set (base_path env0 # children tree0 (base_path env0)). stat tree0 d \<noteq> Inr (Dir False)"
    by (simp add: b tree0_def children_def stat_def stat_simps0 lookup_def)
  show ?thesis
    using clean_purges_expired[OF h1 h2, of 1000000]
    by (simp add: b tree0_def purged_def expired_def is_dir_def stat_def stat_simps0 lookup_def)
qed

text \<open>
  The claim's last clause fails on the code: \<^verbatim>\<open>subdir.iterdir()\<close> on a directory that
  cannot be read raises, nothing catches it, and the entries after it are never
  reached. Here \<^verbatim>\<open>a\<close> cannot be read and the expired file \<^verbatim>\<open>b/old\<close> survives.
\<close>

theorem clean_unreadable_subdir_counterexample:
  "clean env0 1000000 [([''c''], Dir True), ([''c'', ''rpmdeplint''], Dir True),
       ([''c'', ''rpmdeplint'', ''a''], Dir False),
       ([''c'', ''rpmdeplint'', ''b''], Dir True),
       ([''c'', ''rpmdeplint'', ''b'', ''old''], File ''x'' 10 420)]
   = (Inl (OSError EACCES), [([''c''], Dir True), ([''c'', ''rpmdeplint''], Dir True),
       ([''c'', ''rpmdeplint'', ''a''], Dir False),
       ([''c'', ''rpmdeplint'', ''b''], Dir True),
       ([''c'', ''rpmdeplint'', ''b'', ''old''], File ''x'' 10 420)])"
  by (simp add: clean_def env0_def base_path_def expiry_seconds_def is_dir_def iterdir_def
      children_def stat_def stat_simps0 lookup_def)

text \<open>
  Claim C9, as the code has it. The expiry window is read before the base directory
  is looked at. When it is unset or parses as a number and the base path is not a
  directory, \<^verbatim>\<open>Cache.clean\<close> returns normally and the filesystem is unchanged.
\<close>

theorem clean_missing_base:
  "expiry_seconds e = Inr window \<Longrightarrow> \<not> is_dir fs (base_path e) \<Longrightarrow> clean e now fs = (Inr (), fs)"
  by (simp add: clean_def)

theorem clean_missing_base_witness:
  "expiry_seconds env0 = Inr 604800 \<and> \<not> is_dir [] (base_path env0) \<and> clean env0 5 [] = (Inr (), [])"
proof -
  have h1: "expiry_seconds env0 = Inr 604800"
    by (simp add: env0_def expiry_seconds_def)
  have h2: "\<not> is_dir [] (base_path env0)"
    by (simp add: env0_def base_path_def is_dir_def stat_def stat_simps0 lookup_def)
  show ?thesis using h1 h2 clean_missing_base[OF h1 h2, of 5] by simp
qed

text \<open>
  With a value that \<^verbatim>\<open>float()\<close> rejects, \<^verbatim>\<open>Cache.clean\<close> raises \<^verbatim>\<open>ValueError\<close> although
  the base directory does not exist.
\<close>

theorem clean_missing_base_counterexample:
  "\<not> is_dir [] (base_path (env0\<lparr>RPMDEPLINT_EXPIRY_SECONDS := Malformed ''week''\<rparr>)) \<and>
   clean (env0\<lparr>RPMDEPLINT_EXPIRY_SECONDS := Malformed ''week''\<rparr>) 5 []
     = (Inl (ValueError ''could not convert string to float: week''), [])"
  by (simp add: clean_def env0_def base_path_def expiry_seconds_def is_dir_def stat_def
      stat_simps0 lookup_def)

section \<open>Properties of retrieval\<close>

subsection \<open>Lookups after writes\<close>

lemma map_of_fs_put: "map_of (fs_put p n fs) = (map_of fs)(p \<mapsto> n)"
  by (induction fs) auto

lemma lookup_fs_put:
  "p \<noteq> [] \<Longrightarrow> lookup (fs_put p n fs) q = (if q = p then Some n else lookup fs q)"
  by (simp add: lookup_def map_of_fs_put)

lemma lookup_fs_del: "lookup (fs_del p fs) q = (if q \<noteq> [] \<and> q = p then None else lookup fs q)"
  by (simp add: fs_del_prune lookup_prune)

lemma ancestors_Nil: "ancestors [] = []"
  by (simp add: ancestors_def)

lemma ancestors_snoc: "ancestors (d @ [x]) = prefixes d"
  by (simp add: ancestors_def)

lemma in_ancestors: "q \<in> set (ancestors p) \<Longrightarrow> strict_prefix q p"
  by (cases p rule: rev_cases) (auto simp: ancestors_Nil ancestors_snoc strict_prefix_def prefix_def)

lemma walk_cong: "(\<And>q. q \<in> set qs \<Longrightarrow> lookup fs' q = lookup fs q) \<Longrightarrow> walk fs' qs = walk fs qs"
  by (induction qs) (auto split: option.splits node.splits)

lemma stat_cong:
  assumes "\<And>q. prefix q p \<Longrightarrow> lookup fs' q = lookup fs q"
  shows "stat fs' p = stat fs p"
proof -
  have "walk fs' (ancestors p) = walk fs (ancestors p)"
  proof (rule walk_cong)
    fix q assume "q \<in> set (ancestors p)"
    then have "prefix q p" using in_ancestors by (auto simp: strict_prefix_def)
    then show "lookup fs' q = lookup fs q" by (rule assms)
  qed
  moreover have "lookup fs' p = lookup fs p" by (rule assms) simp
  ultimately show ?thesis unfolding stat_def by (simp split: option.splits)
qed

lemma open_rb_InrD:
  "open_rb fs p = Inr data \<Longrightarrow>
   \<exists>m md. lookup fs p = Some (File data m md) \<and> walk fs (ancestors p) = None \<and> p \<noteq> []"
  by (auto simp: open_rb_def stat_def lookup_def split: option.splits sum.splits node.splits if_splits)

lemma open_rb_file:
  "walk fs (ancestors p) = None \<Longrightarrow> lookup fs p = Some (File data m md) \<Longrightarrow> open_rb fs p = Inr data"
  by (simp add: open_rb_def stat_def)

lemma walk_fs_put_self:
  "p \<noteq> [] \<Longrightarrow> walk (fs_put p n fs) (ancestors p) = walk fs (ancestors p)"
  by (rule walk_cong) (auto simp: lookup_fs_put dest: in_ancestors)

lemma hit_step:
  assumes "open_rb (files w) (entry_path (environ s) checksum) = Inr data"
  shows "\<exists>m md. lookup (files w) (entry_path (environ s) checksum) = Some (File data m md) \<and>
     download_repodata_file s checksum url w =
     (Inr \<lparr>h_path = entry_path (environ s) checksum, h_data = data\<rparr>,
      commit (fs_put (entry_path (environ s) checksum) (File data (clock s) md) (files w)) w)"
proof -
  from open_rb_InrD[OF assms] obtain m md where
    l: "lookup (files w) (entry_path (environ s) checksum) = Some (File data m md)" by blast
  show ?thesis using assms l by (auto simp: download_repodata_file_def utime_def Let_def)
qed

lemma open_after_put:
  assumes "open_rb fs p = Inr data"
  shows "open_rb (fs_put p (File data t md) fs) p = Inr data"
proof -
  from open_rb_InrD[OF assms] have
    w: "walk fs (ancestors p) = None" and ne: "p \<noteq> []" by blast+
  show ?thesis
    by (rule open_rb_file[where m = t and md = md]) (simp_all add: walk_fs_put_self ne w lookup_fs_put)
qed

subsection \<open>Cache hits\<close>

text \<open>
  Claim C4. When the entry of a checksum can be opened as a regular file,
  \<^verbatim>\<open>Cache.download_repodata_file\<close> returns a handle on it that reads the entry's
  bytes, sets the entry's modification time to the clock, changes nothing else in
  the filesystem and requests nothing from the network. Called again for the same
  checksum in the resulting state (with any clock, URL or server), it returns the
  same bytes and the request log is still the one before the first call.
\<close>

theorem cache_hit:
  assumes "open_rb (files w) (entry_path (environ s) checksum) = Inr data"
  shows "(let p = entry_path (environ s) checksum;
              (r, w') = download_repodata_file s checksum url w in
          r = Inr \<lparr>h_path = p, h_data = data\<rparr> \<and>
          requests w' = requests w \<and>
          (\<exists>md. lookup (files w') p = Some (File data (clock s) md)) \<and>
          (\<forall>q. q \<noteq> p \<longrightarrow> lookup (files w') q = lookup (files w) q) \<and>
          (\<forall>s' url'. environ s' = environ s \<longrightarrow>
             (let (r2, w2) = download_repodata_file s' checksum url' w' in
              r2 = Inr \<lparr>h_path = p, h_data = data\<rparr> \<and> requests w2 = requests w)))"
proof -
  let ?p = "entry_path (environ s) checksum"
  from hit_step[OF assms, of url] obtain m md where
    l: "lookup (files w) ?p = Some (File data m md)" and
    d: "download_repodata_file s checksum url w =
          (Inr \<lparr>h_path = ?p, h_data = data\<rparr>, commit (fs_put ?p (File data (clock s) md) (files w)) w)"
    by blast
  let ?w' = "commit (fs_put ?p (File data (clock s) md) (files w)) w"
  have ne: "?p \<noteq> []" using open_rb_InrD[OF assms] by blast
  have f: "files ?w' = fs_put ?p (File data (clock s) md) (files w)" and rq: "requests ?w' = requests w"
    by (simp_all add: commit_def)
  have o: "open_rb (files ?w') ?p = Inr data"
    unfolding f using assms by (rule open_after_put)
  have second: "\<And>s' url'. environ s' = environ s \<Longrightarrow>
      fst (download_repodata_file s' checksum url' ?w') = Inr \<lparr>h_path = ?p, h_data = data\<rparr> \<and>
      requests (snd (download_repodata_file s' checksum url' ?w')) = requests w"
  proof -
    fix s' :: "sys" and url' assume e: "environ s' = environ s"
    have "open_rb (files ?w') (entry_path (environ s') checksum) = Inr data" using o e by simp
    from hit_step[OF this, of url'] show "fst (download_repodata_file s' checksum url' ?w') = Inr \<lparr>h_path = ?p, h_data = data\<rparr> \<and>
      requests (snd (download_repodata_file s' checksum url' ?w')) = requests w"
      using e by (auto simp: commit_def)
  qed
  show ?thesis
    unfolding Let_def d using second by (simp add: f rq lookup_fs_put ne split_beta)
qed

theorem cache_hit_witness:
  "open_rb (files world1) (entry_path (environ sys1) ''ab12'') = Inr ''data'' \<and>
   fst (download_repodata_file sys1 ''ab12'' ''http://h/repodata/p.xml.gz'' world1)
     = Inr \<lparr>h_path = [''c'', ''rpmdeplint'', ''a'', ''b12''], h_data = ''data''\<rparr> \<and>
   requests (snd (download_repodata_file sys1 ''ab12'' ''http://h/repodata/p.xml.gz'' world1)) = []"
proof -
  have p: "entry_path (environ sys1) ''ab12'' = [''c'', ''rpmdeplint'', ''a'', ''b12'']"
    by (simp add: sys1_def env0_def entry_path_def base_path_def pjoin_def)
  have h: "open_rb (files world1) (entry_path (environ sys1) ''ab12'') = Inr ''data''"
    by (simp add: p world1_def tree1_def open_rb_def stat_def stat_simps0 lookup_def)
  show ?thesis
    using h cache_hit[OF h, of "''http://h/repodata/p.xml.gz''"]
    by (simp add: p Let_def split_beta world1_def)
qed

subsection \<open>The steps of a cache miss\<close>

lemma extends_refl: "extends Q w w"
  by (simp add: extends_def)

lemma extends_seen_eq: "seen w' = seen w \<Longrightarrow> extends Q w w'"
  by (simp add: extends_def)

lemma extends_commit: "Q fs' \<Longrightarrow> extends Q w (commit fs' w)"
  by (simp add: extends_def commit_def)

lemma extends_trans: "extends Q w w1 \<Longrightarrow> extends Q w1 w2 \<Longrightarrow> extends Q w w2"
  by (auto simp: extends_def)

lemma extends_mono: "extends Q w w' \<Longrightarrow> (\<And>fs. Q fs \<Longrightarrow> Q' fs) \<Longrightarrow> extends Q' w w'"
  by (auto simp: extends_def list_all_iff)

lemma extends_from: "seen w0 = seen w \<Longrightarrow> extends Q w w' \<Longrightarrow> extends Q w0 w'"
  by (simp add: extends_def)

lemma extends_drop: "extends Q w w' \<Longrightarrow> fs \<in> set (drop (length (seen w)) (seen w')) \<Longrightarrow> Q fs"
  by (auto simp: extends_def list_all_iff)

lemma commit_simps:
  "files (commit fs' w) = fs'" "requests (commit fs' w) = requests w"
  "seen (commit fs' w) = seen w @ [fs']"
  by (simp_all add: commit_def)

lemma same_off_refl: "same_off t fs fs"
  by (simp add: same_off_def)

lemma same_off_put: "t \<noteq> [] \<Longrightarrow> same_off t prev fs \<Longrightarrow> same_off t prev (fs_put t n fs)"
  by (simp add: same_off_def lookup_fs_put)

lemma same_off_del: "same_off t prev fs \<Longrightarrow> same_off t prev (fs_del t fs)"
  by (simp add: same_off_def lookup_fs_del)

lemma write_chunks_props:
  assumes "t \<noteq> []" and "lookup (files w) t = Some (File c0 now md0)" and "same_off t prev (files w)"
  shows "lookup (files (write_chunks t cs now w)) t = Some (File (c0 @ concat cs) now md0) \<and>
         same_off t prev (files (write_chunks t cs now w)) \<and>
         requests (write_chunks t cs now w) = requests w \<and>
         extends (same_off t prev) w (write_chunks t cs now w)"
  using assms(2,3)
proof (induction cs arbitrary: w c0)
  case Nil
  then show ?case by (simp add: write_chunks_def extends_refl)
next
  case (Cons c cs)
  let ?fs1 = "fs_put t (File (c0 @ c) now md0) (files w)"
  let ?w1 = "commit ?fs1 w"
  have st: "write_chunks t (c # cs) now w = write_chunks t cs now ?w1"
    using Cons.prems(1) by (simp add: write_chunks_def append_file_def)
  have l1: "lookup (files ?w1) t = Some (File (c0 @ c) now md0)"
    using assms(1) by (simp add: commit_simps lookup_fs_put)
  have s1: "same_off t prev (files ?w1)"
    using assms(1) Cons.prems(2) by (simp add: commit_simps same_off_put)
  have e1: "extends (same_off t prev) w ?w1"
    using s1 by (intro extends_commit) (simp add: commit_simps)
  note ih = Cons.IH[OF l1 s1]
  have e2: "extends (same_off t prev) w (write_chunks t cs now ?w1)"
    by (rule extends_trans[OF e1]) (use ih in blast)
  from ih e2 show ?case
    unfolding st by (simp add: commit_simps)
qed

lemma mkdirs_props:
  assumes "nofile (files w) p"
  shows "requests (snd (mkdirs qs w)) = requests w \<and>
         nofile (files (snd (mkdirs qs w))) p \<and>
         extends (\<lambda>fs. nofile fs p) w (snd (mkdirs qs w)) \<and>
         (\<forall>q. q \<notin> set qs \<longrightarrow> lookup (files (snd (mkdirs qs w))) q = lookup (files w) q) \<and>
         (\<forall>q. lookup (files w) q \<noteq> None \<longrightarrow> lookup (files (snd (mkdirs qs w))) q = lookup (files w) q)"
  using assms
proof (induction qs arbitrary: w)
  case Nil
  then show ?case by (simp add: extends_refl)
next
  case (Cons q qs)
  show ?case
  proof (cases "lookup (files w) q")
    case None
    then have ne: "q \<noteq> []" by (auto simp: lookup_def)
    let ?w1 = "commit (fs_put q (Dir True) (files w)) w"
    have st: "mkdirs (q # qs) w = mkdirs qs ?w1" using None by simp
    have n1: "nofile (files ?w1) p"
      using Cons.prems ne by (simp add: commit_simps nofile_def lookup_fs_put)
    have e1: "extends (\<lambda>fs. nofile fs p) w ?w1"
      using n1 by (intro extends_commit) (simp add: commit_simps)
    note ih = Cons.IH[OF n1]
    have e2: "extends (\<lambda>fs. nofile fs p) w (snd (mkdirs qs ?w1))"
      by (rule extends_trans[OF e1]) (use ih in blast)
    from ih e2 None ne show ?thesis
      unfolding st by (auto simp: commit_simps lookup_fs_put)
  next
    case (Some n)
    show ?thesis
    proof (cases n)
      case (File c m md)
      then show ?thesis using Some Cons.prems by (simp add: extends_refl)
    next
      case (Dir r)
      then have st: "mkdirs (q # qs) w = mkdirs qs w" using Some by simp
      from Cons.IH[OF Cons.prems] show ?thesis unfolding st by auto
    qed
  qed
qed

lemma mkdirs_walk:
  "walk (files w) qs = None \<Longrightarrow> mkdirs qs w = (None, w)"
  by (induction qs) (auto split: option.splits node.splits)

lemma mkdirs_ok:
  "fst (mkdirs qs w) = None \<Longrightarrow> q \<in> set qs \<Longrightarrow> \<exists>r. lookup (files (snd (mkdirs qs w))) q = Some (Dir r)"
proof (induction qs arbitrary: w)
  case Nil
  then show ?case by simp
next
  case (Cons a qs)
  have keep: "\<And>(w0::world) n. lookup (files w0) q = Some n \<Longrightarrow> lookup (files (snd (mkdirs qs w0))) q = Some n"
  proof -
    fix w0 :: world and n assume "lookup (files w0) q = Some n"
    moreover have "nofile (files w0) [] " by (simp add: nofile_def lookup_def)
    ultimately show "lookup (files (snd (mkdirs qs w0))) q = Some n"
      using mkdirs_props[of w0 "[]" qs] by auto
  qed
  show ?case
  proof (cases "lookup (files w) a")
    case None
    then have ne: "a \<noteq> []" by (auto simp: lookup_def)
    let ?w1 = "commit (fs_put a (Dir True) (files w)) w"
    have st: "mkdirs (a # qs) w = mkdirs qs ?w1" using None by simp
    show ?thesis
    proof (cases "q = a")
      case True
      have "lookup (files ?w1) q = Some (Dir True)" using True ne by (simp add: commit_simps lookup_fs_put)
      from keep[OF this] show ?thesis unfolding st by blast
    next
      case False
      then show ?thesis using Cons.IH[of ?w1] Cons.prems unfolding st by auto
    qed
  next
    case (Some n)
    show ?thesis
    proof (cases n)
      case (File c m md)
      then show ?thesis using Some Cons.prems by simp
    next
      case (Dir r)
      then have st: "mkdirs (a # qs) w = mkdirs qs w" using Some by simp
      show ?thesis
      proof (cases "q = a")
        case True
        have "lookup (files w) q = Some (Dir r)" using True Some Dir by simp
        from keep[OF this] show ?thesis unfolding st by blast
      next
        case False
        then show ?thesis using Cons.IH[of w] Cons.prems unfolding st by auto
      qed
    qed
  qed
qed

lemma walk_dirs: "\<forall>q \<in> set qs. \<exists>r. lookup fs q = Some (Dir r) \<Longrightarrow> walk fs qs = None"
  by (induction qs) auto

lemma walk_NoneD: "walk fs qs = None \<Longrightarrow> q \<in> set qs \<Longrightarrow> \<exists>r. lookup fs q = Some (Dir r)"
  by (induction qs) (auto split: option.splits node.splits)

lemma walk_append:
  "walk fs (xs @ ys) = (case walk fs xs of Some e \<Rightarrow> Some e | None \<Rightarrow> walk fs ys)"
  by (induction xs) (auto split: option.splits node.splits)

lemma prefixes_ancestors: "prefixes d = ancestors d @ [d]"
  unfolding ancestors_def using append_butlast_last_id[of "prefixes d"] by simp

lemma stat_InrD: "stat fs q = Inr n \<Longrightarrow> lookup fs q = Some n \<and> walk fs (ancestors q) = None"
  by (auto simp: stat_def split: option.splits)

lemma stat_InrI: "walk fs (ancestors q) = None \<Longrightarrow> lookup fs q = Some n \<Longrightarrow> stat fs q = Inr n"
  by (simp add: stat_def)

lemma stat_dir_walk: "stat fs d = Inr (Dir r) \<Longrightarrow> walk fs (prefixes d) = None"
  by (auto simp: prefixes_ancestors walk_append dest: stat_InrD)

lemma walk_prefixes_stat: "walk fs (prefixes d) = None \<Longrightarrow> \<exists>r. stat fs d = Inr (Dir r)"
  unfolding prefixes_ancestors walk_append
  by (auto simp: stat_def split: option.splits node.splits)

lemma open_nofile: "nofile fs p \<Longrightarrow> open_rb fs p \<noteq> Inr data"
  by (auto simp: nofile_def dest: open_rb_InrD)

lemma same_off_nofile: "same_off t prev fs \<Longrightarrow> t \<noteq> p \<Longrightarrow> nofile prev p \<Longrightarrow> nofile fs p"
  by (simp add: same_off_def nofile_def)

lemma same_off_walk:
  assumes "same_off t prev fs"
  shows "walk fs (ancestors t) = walk prev (ancestors t)"
proof (rule walk_cong)
  fix q assume "q \<in> set (ancestors t)"
  then have "q \<noteq> t" using in_ancestors by (auto simp: strict_prefix_def)
  then show "lookup fs q = lookup prev q" using assms by (simp add: same_off_def)
qed

lemma same_off_trans: "same_off t a b \<Longrightarrow> same_off t b c \<Longrightarrow> same_off t a c"
  by (simp add: same_off_def)

lemma unlink_file:
  "walk fs (ancestors t) = None \<Longrightarrow> lookup fs t = Some (File c m md) \<Longrightarrow> unlink t fs = Inr (fs_del t fs)"
  by (simp add: unlink_def stat_def)

lemma unlink_InrD: "unlink t fs = Inr fs' \<Longrightarrow> fs' = fs_del t fs"
  by (auto simp: unlink_def split: sum.splits node.splits)

lemma rmtree_prune:
  "is_dir fs p \<Longrightarrow>
   rmtree p fs = prune (\<lambda>k. prefix p k \<and> list_all (\<lambda>u. \<not> prefix k u \<and> \<not> prefix u k) (blocked p fs)) fs"
  by (simp add: rmtree_def prune_def)

lemma rmtree_lookup: "lookup (rmtree p fs) q = None \<or> lookup (rmtree p fs) q = lookup fs q"
  by (cases "is_dir fs p") (simp_all add: rmtree_prune lookup_prune, simp add: rmtree_def)

lemma rmtree_outside: "\<not> prefix p q \<Longrightarrow> lookup (rmtree p fs) q = lookup fs q"
  by (cases "is_dir fs p") (simp_all add: rmtree_prune lookup_prune, simp add: rmtree_def)

lemma rmtree_gone:
  "is_dir fs p \<Longrightarrow> blocked p fs = [] \<Longrightarrow> p \<noteq> [] \<Longrightarrow> lookup (rmtree p fs) p = None"
  by (simp add: rmtree_prune lookup_prune)

lemma rmtree_nofile: "nofile fs p \<Longrightarrow> nofile (rmtree q fs) p"
  using rmtree_lookup[of q fs p] by (auto simp: nofile_def)

text \<open>The state after the request and the writes.\<close>

lemma streamed:
  fixes cs :: "bytes list" and url :: string and w :: world
  assumes "t \<noteq> []" and "lookup (files w) t = Some (File c0 (clock s) md0)"
  defines "wc \<equiv> write_chunks t cs (clock s) (w\<lparr>requests := requests w @ [url]\<rparr>)"
  shows "lookup (files wc) t = Some (File (c0 @ concat cs) (clock s) md0)"
    and "same_off t (files w) (files wc)"
    and "requests wc = requests w @ [url]"
    and "extends (same_off t (files w)) w wc"
proof -
  let ?w0 = "w\<lparr>requests := requests w @ [url]\<rparr>"
  have l: "lookup (files ?w0) t = Some (File c0 (clock s) md0)" using assms(2) by simp
  have so: "same_off t (files w) (files ?w0)" by (simp add: same_off_refl)
  note p = write_chunks_props[OF assms(1) l so, of cs]
  show "lookup (files wc) t = Some (File (c0 @ concat cs) (clock s) md0)"
    and "same_off t (files w) (files wc)" and "requests wc = requests w @ [url]"
    using p unfolding wc_def by simp_all
  have "extends (same_off t (files w)) ?w0 wc" using p unfolding wc_def by blast
  then show "extends (same_off t (files w)) w wc"
    by (rule extends_from[rotated]) simp
qed

lemma nofile_reader_ok: "nofile fs p \<Longrightarrow> reader_ok s url p fs"
  using open_nofile[of fs p] by (cases "open_rb fs p") (auto simp: reader_ok_def)

lemma fetch_broken_eq:
  "http s url = Broken cs x \<Longrightarrow>
   fetch_to_cache s url t p w =
     (let wc = write_chunks t cs (clock s) (w\<lparr>requests := requests w @ [url]\<rparr>);
          x' = (if is_OSError x
                then RepoDownloadError (''Failed to download repodata file '' @ basename url)
                else x)
      in if is_Exception x' then
           (case close_error s of
              Some y \<Rightarrow> (Inl y, wc)
            | None \<Rightarrow>
                (case unlink t (files wc) of
                   Inl e \<Rightarrow> (Inl (OSError e), wc)
                 | Inr fs' \<Rightarrow> (Inl x', commit fs' wc)))
         else (Inl x', wc))"
  by (simp add: fetch_to_cache_def stream_body_def Let_def)

lemma fetch_unflushed_eq:
  "http s url = Unflushed cs x \<Longrightarrow>
   fetch_to_cache s url t p w =
     (let wc = write_chunks t cs (clock s) (w\<lparr>requests := requests w @ [url]\<rparr>)
      in if is_Exception x then
           (case close_error s of
              Some y \<Rightarrow> (Inl y, wc)
            | None \<Rightarrow>
                (case unlink t (files wc) of
                   Inl e \<Rightarrow> (Inl (OSError e), wc)
                 | Inr fs' \<Rightarrow> (Inl x, commit fs' wc)))
         else (Inl x, wc))"
  by (simp add: fetch_to_cache_def stream_body_def Let_def)

lemma fetch_failed_eq:
  assumes "http s url = Broken cs x \<and>
             x' = (if is_OSError x
                   then RepoDownloadError (''Failed to download repodata file '' @ basename url)
                   else x) \<or>
           http s url = Unflushed cs x \<and> x' = x"
  shows "fetch_to_cache s url t p w =
     (let wc = write_chunks t cs (clock s) (w\<lparr>requests := requests w @ [url]\<rparr>)
      in if is_Exception x' then
           (case close_error s of
              Some y \<Rightarrow> (Inl y, wc)
            | None \<Rightarrow>
                (case unlink t (files wc) of
                   Inl e \<Rightarrow> (Inl (OSError e), wc)
                 | Inr fs' \<Rightarrow> (Inl x', commit fs' wc)))
         else (Inl x', wc))"
  using assms
proof (elim disjE conjE)
  assume "http s url = Broken cs x" and "x' = (if is_OSError x
                   then RepoDownloadError (''Failed to download repodata file '' @ basename url)
                   else x)"
  then show ?thesis by (simp only: fetch_broken_eq Let_def)
next
  assume "http s url = Unflushed cs x" and "x' = x"
  then show ?thesis by (simp only: fetch_unflushed_eq Let_def)
qed

lemma fetch_fetched_eq:
  "http s url = Fetched cs \<Longrightarrow>
   fetch_to_cache s url t p w =
     (let wc = write_chunks t cs (clock s) (w\<lparr>requests := requests w @ [url]\<rparr>);
          w2 = commit (fchmod t 420 (files wc)) wc
      in case rename t p (files w2) of
           Inl e \<Rightarrow>
             (case close_error s of
                Some y \<Rightarrow> (Inl y, w2)
              | None \<Rightarrow>
                  (case unlink t (files w2) of
                     Inl e' \<Rightarrow> (Inl (OSError e'), w2)
                   | Inr fs' \<Rightarrow> (Inl (OSError e), commit fs' w2)))
         | Inr fs' \<Rightarrow>
             (Inr \<lparr>h_path = p,
                   h_data = (case lookup (files w2) t of Some (File c m md) \<Rightarrow> c | _ \<Rightarrow> [])\<rparr>,
              commit fs' w2))"
  by (simp add: fetch_to_cache_def stream_body_def Let_def split: sum.splits)

lemma rename_InrD:
  "rename t p fs = Inr fs' \<Longrightarrow> t \<noteq> p \<Longrightarrow>
   \<exists>c m md. lookup fs t = Some (File c m md) \<and> fs' = fs_put p (File c m md) (fs_del t fs)"
  by (auto simp: rename_def split: sum.splits node.splits option.splits if_splits dest: stat_InrD)

lemma mkstemp_InrD:
  assumes "mkstemp d names t0 fs = Inr (t, fs')"
  shows "\<exists>n r. t = d @ [''tmp'' @ n] \<and> n \<in> set names \<and> lookup fs t = None \<and>
           fs' = fs_put t (File [] t0 384) fs \<and> stat fs d = Inr (Dir r)"
proof -
  from assms obtain r n where st: "stat fs d = Inr (Dir r)"
    and f: "find (\<lambda>n. lookup fs (d @ [''tmp'' @ n]) = None) names = Some n"
    and t: "t = d @ [''tmp'' @ n]" and fs': "fs' = fs_put (d @ [''tmp'' @ n]) (File [] t0 384) fs"
    by (auto simp: mkstemp_def split: sum.splits node.splits option.splits)
  from f have "n \<in> set names" and "lookup fs (d @ [''tmp'' @ n]) = None"
    by (auto simp: find_Some_iff)
  then show ?thesis using st t fs' by blast
qed

lemma fetch_invariant:
  fixes w :: world
  assumes ne: "t \<noteq> []" and tp: "t \<noteq> p"
    and lt: "lookup (files w) t = Some (File [] (clock s) md0)"
    and nf: "nofile (files w) p"
  shows "extends (reader_ok s url p) w (snd (fetch_to_cache s url t p w))"
proof -
  have ok: "\<And>fs. same_off t (files w) fs \<Longrightarrow> reader_ok s url p fs"
    using same_off_nofile[OF _ tp nf] by (blast intro: nofile_reader_ok)
  have failed: "extends (reader_ok s url p) w (snd (fetch_to_cache s url t p w))"
    if fl: "http s url = Broken cs x \<and>
              x' = (if is_OSError x
                    then RepoDownloadError (''Failed to download repodata file '' @ basename url)
                    else x) \<or>
            http s url = Unflushed cs x \<and> x' = x" for cs x x'
  proof -
    let ?wc = "write_chunks t cs (clock s) (w\<lparr>requests := requests w @ [url]\<rparr>)"
    note st = streamed[OF ne lt, of cs url]
    have e: "extends (reader_ok s url p) w ?wc"
      using st(4) ok by (rule extends_mono)
    have so: "same_off t (files w) (fs_del t (files ?wc))"
      using st(2) by (rule same_off_del)
    have e2: "extends (reader_ok s url p) w (commit (fs_del t (files ?wc)) ?wc)"
      by (rule extends_trans[OF e]) (rule extends_commit, rule ok, rule so)
    show ?thesis
      unfolding fetch_failed_eq[OF fl] Let_def
      using e e2 by (auto split: sum.splits option.splits dest!: unlink_InrD)
  qed
  show ?thesis
  proof (cases "http s url")
    case (Broken cs x)
    then show ?thesis by (intro failed[of cs x]) simp
  next
    case (Unflushed cs x)
    then show ?thesis by (intro failed[of cs x x]) simp
  next
    case (Fetched cs)
    let ?wc = "write_chunks t cs (clock s) (w\<lparr>requests := requests w @ [url]\<rparr>)"
    let ?fs2 = "fs_put t (File (concat cs) (clock s) 420) (files ?wc)"
    let ?w2 = "commit ?fs2 ?wc"
    note st = streamed[OF ne lt, of cs url]
    have fc: "fchmod t 420 (files ?wc) = ?fs2"
      using st(1) by (simp add: fchmod_def)
    have e: "extends (reader_ok s url p) w ?wc"
      using st(4) ok by (rule extends_mono)
    have so2: "same_off t (files w) ?fs2"
      using ne st(2) by (rule same_off_put)
    have e2: "extends (reader_ok s url p) w ?w2"
      by (rule extends_trans[OF e]) (rule extends_commit, rule ok, rule so2)
    have so3: "same_off t (files w) (fs_del t ?fs2)"
      using so2 by (rule same_off_del)
    have e3: "extends (reader_ok s url p) w (commit (fs_del t ?fs2) ?w2)"
      by (rule extends_trans[OF e2]) (rule extends_commit, rule ok, rule so3)
    have l2: "lookup ?fs2 t = Some (File (concat cs) (clock s) 420)"
      using ne by (simp add: lookup_fs_put)
    have e4: "extends (reader_ok s url p) w (commit fs' ?w2)" if r: "rename t p ?fs2 = Inr fs'" for fs'
    proof -
      from rename_InrD[OF r tp] l2 have fs': "fs' = fs_put p (File (concat cs) (clock s) 420) (fs_del t ?fs2)"
        by auto
      have "reader_ok s url p fs'"
      proof (cases "open_rb fs' p")
        case (Inl a)
        then show ?thesis by (simp add: reader_ok_def)
      next
        case (Inr data)
        from open_rb_InrD[OF Inr] have "data = concat cs"
          unfolding fs' by (auto simp: lookup_fs_put)
        then show ?thesis using Inr Fetched by (simp add: reader_ok_def)
      qed
      then show ?thesis by (intro extends_trans[OF e2] extends_commit)
    qed
    show ?thesis
      unfolding fetch_fetched_eq[OF Fetched] Let_def fc
      using e2 e3 e4 by (auto simp: commit_simps split: sum.splits option.splits dest!: unlink_InrD)
  qed
qed

lemma miss_invariant:
  fixes w :: world
  assumes nf: "nofile (files w) p" and tp: "\<And>n. butlast p @ [''tmp'' @ n] \<noteq> p"
  shows "extends (reader_ok s url p) w (snd (cache_miss s url p w))"
proof -
  let ?d = "butlast p"
  obtain r wA where mk: "mkdir_parents ?d w = (r, wA)" by (cases "mkdir_parents ?d w")
  then have wA: "wA = snd (mkdirs (prefixes ?d) w)" by (simp add: mkdir_parents_def)
  note mp = mkdirs_props[OF nf, of "prefixes ?d", folded wA]
  have nfA: "nofile (files wA) p" using mp by blast
  have eA: "extends (reader_ok s url p) w wA"
    by (rule extends_mono[of "\<lambda>fs. nofile fs p"]) (use mp nofile_reader_ok in blast)+
  show ?thesis
  proof (cases r)
    case (Some e)
    then show ?thesis using mk eA by (simp add: cache_miss_def)
  next
    case None
    show ?thesis
    proof (cases "mkstemp ?d (tmp_names s) (clock s) (files wA)")
      case (Inl e)
      then show ?thesis using mk None eA by (simp add: cache_miss_def)
    next
      case (Inr tf)
      obtain t fsB where tf: "tf = (t, fsB)" by (cases tf)
      from mkstemp_InrD[OF Inr[unfolded tf]] obtain n where
        t: "t = ?d @ [''tmp'' @ n]" and fsB: "fsB = fs_put t (File [] (clock s) 384) (files wA)"
        by blast
      have ne: "t \<noteq> []" and tnp: "t \<noteq> p" using t tp by auto
      let ?wB = "commit fsB wA"
      have nfB: "nofile (files ?wB) p"
        using nfA ne tnp by (simp add: commit_simps fsB nofile_def lookup_fs_put)
      have eB: "extends (reader_ok s url p) w ?wB"
        by (rule extends_trans[OF eA], rule extends_commit, rule nofile_reader_ok)
           (use nfB in \<open>simp add: commit_simps\<close>)
      have lt: "lookup (files ?wB) t = Some (File [] (clock s) 384)"
        using ne by (simp add: commit_simps fsB lookup_fs_put)
      have eC: "extends (reader_ok s url p) w (snd (fetch_to_cache s url t p ?wB))"
        by (rule extends_trans[OF eB]) (rule fetch_invariant[OF ne tnp lt nfB])
      show ?thesis
        using mk None Inr tf eB eC by (simp add: cache_miss_def split: option.splits)
    qed
  qed
qed

lemma entry_path_last:
  assumes "hexdigest c"
  shows "\<exists>d x xs. entry_path e c = d @ [x # xs] \<and> x \<noteq> CHR ''t''"
proof -
  from assms obtain a cs where c: "c = a # cs" and a: "a \<in> set ''0123456789abcdef''"
    and cs: "list_all (\<lambda>x. x \<in> set ''0123456789abcdef'') cs"
    by (cases c) (auto simp: hexdigest_def)
  show ?thesis
  proof (cases cs)
    case Nil
    then have "entry_path e c = base_path e @ [[a]]" using c by (simp add: entry_path_def pjoin_def)
    moreover have "a \<noteq> CHR ''t''" using a by auto
    ultimately show ?thesis by blast
  next
    case (Cons b bs)
    then have "entry_path e c = (base_path e @ [[a]]) @ [b # bs]"
      using c by (simp add: entry_path_def pjoin_def)
    moreover have "b \<noteq> CHR ''t''" using cs Cons by auto
    ultimately show ?thesis by blast
  qed
qed

lemma tmp_not_entry: "hexdigest c \<Longrightarrow> butlast (entry_path e c) @ [''tmp'' @ n] \<noteq> entry_path e c"
  using entry_path_last[of c e] by auto

lemma enoent_absent:
  assumes wf: "wf_fs fs" and op: "open_rb fs p = Inl ENOENT"
  shows "lookup fs p = None"
proof (rule ccontr)
  assume "lookup fs p \<noteq> None"
  then obtain n where l: "lookup fs p = Some n" by blast
  have ne: "p \<noteq> []" using op by (auto simp: open_rb_def stat_def ancestors_Nil lookup_def)
  then have "(p, n) \<in> set fs" using l by (auto simp: lookup_def dest: map_of_SomeD)
  then have "is_dir fs (butlast p)" using wf by (auto simp: wf_fs_def list_all_iff)
  then obtain r where "stat fs (butlast p) = Inr (Dir r)" unfolding is_dir_iff by blast
  then have "walk fs (prefixes (butlast p)) = None" by (rule stat_dir_walk)
  moreover have "ancestors p = prefixes (butlast p)"
    using ne ancestors_snoc[of "butlast p" "last p"] by simp
  ultimately have "stat fs p = Inr n" using l by (simp add: stat_def)
  then show False using op by (cases n) (auto simp: open_rb_def split: if_splits)
qed

lemma walk_errno: "walk fs qs = Some e \<Longrightarrow> e = ENOENT \<or> e = ENOTDIR"
  by (induction qs) (auto split: option.splits node.splits)

lemma stat_errno: "stat fs p = Inl e \<Longrightarrow> e = ENOENT \<or> e = ENOTDIR"
  by (auto simp: stat_def split: option.splits dest: walk_errno)

lemma eisdir_dir: "open_rb fs p = Inl EISDIR \<Longrightarrow> stat fs p = Inr (Dir True)"
  by (auto simp: open_rb_def split: sum.splits node.splits if_splits dest: stat_errno)

lemma miss_nofile:
  assumes "wf_fs fs" and "open_rb fs p = Inl ENOENT \<or> open_rb fs p = Inl EISDIR"
  shows "nofile fs p"
proof -
  from assms(2) show ?thesis
  proof
    assume "open_rb fs p = Inl ENOENT"
    then show ?thesis using enoent_absent[OF assms(1)] by (simp add: nofile_def)
  next
    assume "open_rb fs p = Inl EISDIR"
    then have "lookup fs p = Some (Dir True)" by (auto dest: eisdir_dir stat_InrD)
    then show ?thesis by (simp add: nofile_def)
  qed
qed

lemma download_invariant:
  fixes w :: world
  assumes wf: "wf_fs (files w)" and hex: "hexdigest checksum"
    and miss: "open_rb (files w) (entry_path (environ s) checksum) = Inl ENOENT \<or>
               open_rb (files w) (entry_path (environ s) checksum) = Inl EISDIR"
  shows "extends (reader_ok s url (entry_path (environ s) checksum)) w
           (snd (download_repodata_file s checksum url w))"
proof -
  let ?p = "entry_path (environ s) checksum"
  have nf: "nofile (files w) ?p" using wf miss by (rule miss_nofile)
  have tp: "\<And>n. butlast ?p @ [''tmp'' @ n] \<noteq> ?p" using hex by (rule tmp_not_entry)
  from miss show ?thesis
  proof
    assume o: "open_rb (files w) ?p = Inl ENOENT"
    then have "download_repodata_file s checksum url w = cache_miss s url ?p w"
      by (simp add: download_repodata_file_def Let_def)
    then show ?thesis using miss_invariant[OF nf tp] by simp
  next
    assume o: "open_rb (files w) ?p = Inl EISDIR"
    let ?w0 = "commit (rmtree ?p (files w)) w"
    have d: "download_repodata_file s checksum url w = cache_miss s url ?p ?w0"
      using o by (simp add: download_repodata_file_def Let_def)
    have nf0: "nofile (files ?w0) ?p" using nf by (simp add: commit_simps rmtree_nofile)
    have e0: "extends (reader_ok s url ?p) w ?w0"
      by (rule extends_commit, rule nofile_reader_ok) (use nf0 in \<open>simp add: commit_simps\<close>)
    show ?thesis unfolding d
      by (rule extends_trans[OF e0]) (rule miss_invariant[OF nf0 tp])
  qed
qed

lemma snoc_not_prefix: "d @ [y] \<notin> set (prefixes d)"
  by (auto simp: prefix_def)

lemma cache_miss_failure:
  fixes w :: world
  assumes fl: "http s url = Broken cs x \<and>
                 x' = (if is_OSError x
                       then RepoDownloadError (''Failed to download repodata file '' @ basename url)
                       else x) \<or>
               http s url = Unflushed cs x \<and> x' = x"
    and ex: "is_Exception x" and cl: "close_error s = None"
    and rq: "requests (snd (cache_miss s url p w)) \<noteq> requests w"
  shows "fst (cache_miss s url p w) = Inl x' \<and>
         (\<forall>y. lookup (files w) (butlast p @ [y]) = None \<longrightarrow>
              lookup (files (snd (cache_miss s url p w))) (butlast p @ [y]) = None)"
proof -
  let ?d = "butlast p"
  have ex': "is_Exception x'" using ex fl by auto
  obtain r wA where mk: "mkdir_parents ?d w = (r, wA)" by (cases "mkdir_parents ?d w")
  then have wA: "wA = snd (mkdirs (prefixes ?d) w)" by (simp add: mkdir_parents_def)
  have "nofile (files w) []" by (simp add: nofile_def lookup_def)
  note mp = mkdirs_props[OF this, of "prefixes ?d", folded wA]
  have rA: "requests wA = requests w" using mp by blast
  from mp have mp4: "\<forall>q. q \<notin> set (prefixes ?d) \<longrightarrow> lookup (files wA) q = lookup (files w) q"
    by (elim conjE)
  have lA: "\<And>y. lookup (files wA) (?d @ [y]) = lookup (files w) (?d @ [y])"
    by (simp add: mp4 snoc_not_prefix)
  show ?thesis
  proof (cases r)
    case (Some e)
    then show ?thesis using mk rA rq by (simp add: cache_miss_def)
  next
    case None
    show ?thesis
    proof (cases "mkstemp ?d (tmp_names s) (clock s) (files wA)")
      case (Inl e)
      then show ?thesis using mk None rA rq by (simp add: cache_miss_def)
    next
      case (Inr tf)
      obtain t fsB where tf: "tf = (t, fsB)" by (cases tf)
      from mkstemp_InrD[OF Inr[unfolded tf]] obtain n r' where
        t: "t = ?d @ [''tmp'' @ n]" and fsB: "fsB = fs_put t (File [] (clock s) 384) (files wA)"
        and sd: "stat (files wA) ?d = Inr (Dir r')"
        by blast
      have ne: "t \<noteq> []" using t by simp
      let ?wB = "commit fsB wA"
      show ?thesis
      proof (cases "fdopen_error s")
        case (Some e)
        then show ?thesis using mk None Inr tf rA rq by (simp add: cache_miss_def commit_simps)
      next
        case fd: None
        have cm: "cache_miss s url p w = fetch_to_cache s url t p ?wB"
          using mk None Inr tf fd by (simp add: cache_miss_def)
        let ?wc = "write_chunks t cs (clock s) (?wB\<lparr>requests := requests ?wB @ [url]\<rparr>)"
        have lt: "lookup (files ?wB) t = Some (File [] (clock s) 384)"
          using ne by (simp add: commit_simps fsB lookup_fs_put)
        note st = streamed[OF ne lt, of cs url]
        have soB: "same_off t (files wA) (files ?wB)"
          using ne by (simp add: commit_simps fsB same_off_put same_off_refl)
        have soC: "same_off t (files wA) (files ?wc)"
          using soB st(2) by (rule same_off_trans)
        have at: "ancestors t = prefixes ?d" unfolding t by (rule ancestors_snoc)
        have wk: "walk (files ?wc) (ancestors t) = None"
          using same_off_walk[OF soC] stat_dir_walk[OF sd] by (simp add: at)
        have ul: "unlink t (files ?wc) = Inr (fs_del t (files ?wc))"
          using wk st(1) by (rule unlink_file)
        have res: "fetch_to_cache s url t p ?wB = (Inl x', commit (fs_del t (files ?wc)) ?wc)"
          unfolding fetch_failed_eq[OF fl] Let_def using ex' ul cl by simp
        have "lookup (fs_del t (files ?wc)) (?d @ [y]) = None"
          if "lookup (files w) (?d @ [y]) = None" for y
        proof (cases "?d @ [y] = t")
          case True
          then show ?thesis using ne by (simp add: lookup_fs_del)
        next
          case False
          then have "lookup (fs_del t (files ?wc)) (?d @ [y]) = lookup (files wA) (?d @ [y])"
            using soC by (simp add: lookup_fs_del same_off_def)
          then show ?thesis using that lA by simp
        qed
        then show ?thesis unfolding cm res by (simp add: commit_simps)
      qed
    qed
  qed
qed

subsection \<open>Failed downloads\<close>

text \<open>
  Claim C1, as the code has it. Take a call of \<^verbatim>\<open>Cache.download_repodata_file\<close> that
  misses: opening the entry's path gives \<open>ENOENT\<close>, or \<open>EISDIR\<close> for a directory of the
  old layout.

  First, in a well-formed filesystem and for a hexadecimal checksum, every state
  of the filesystem from the start of the call to its end satisfies \<open>reader_ok\<close>: a
  reader that opens the entry's path finds no regular file, or the complete body
  of a successful download. The bytes go to a temporary file in the entry's
  directory and reach the entry's path by the rename only. This holds for every
  outcome of the download, an interrupt and a failing close included.

  Second, when the URL was requested, the request, the status check, the stream
  or a write raised an exception \<open>x\<close> of class \<^verbatim>\<open>Exception\<close>, and the close of the handler
  does not raise, the call raises: \<^verbatim>\<open>RepoDownloadError\<close> with the base name of the URL
  when \<open>x\<close> is an \<^verbatim>\<open>OSError\<close>, and \<open>x\<close> itself otherwise. No name that was free in the
  entry's directory is taken afterwards: the temporary file is gone and the entry
  was not created.

  Third, the same when the flush of line 121 raised \<open>x\<close>, except that \<open>x\<close> is raised
  as it is, an \<^verbatim>\<open>OSError\<close> too: the flush is outside the inner \<^verbatim>\<open>try\<close>.
\<close>

theorem download_failure_cleanup:
  assumes "open_rb (files w) (entry_path (environ s) checksum) = Inl ENOENT \<or>
           open_rb (files w) (entry_path (environ s) checksum) = Inl EISDIR"
  shows "(let p = entry_path (environ s) checksum;
              (r, w') = download_repodata_file s checksum url w in
          (wf_fs (files w) \<and> hexdigest checksum \<longrightarrow>
             list_all (reader_ok s url p) (drop (length (seen w)) (seen w'))) \<and>
          (\<forall>cs x. http s url = Broken cs x \<and> is_Exception x \<and> close_error s = None \<and>
                  requests w' = requests w @ [url] \<longrightarrow>
             r = Inl (if is_OSError x
                      then RepoDownloadError (''Failed to download repodata file '' @ basename url)
                      else x) \<and>
             (\<forall>y. lookup (files w) (butlast p @ [y]) = None \<longrightarrow>
                  lookup (files w') (butlast p @ [y]) = None)) \<and>
          (\<forall>cs x. http s url = Unflushed cs x \<and> is_Exception x \<and> close_error s = None \<and>
                  requests w' = requests w @ [url] \<longrightarrow>
             r = Inl x \<and>
             (\<forall>y. lookup (files w) (butlast p @ [y]) = None \<longrightarrow>
                  lookup (files w') (butlast p @ [y]) = None)))"
proof -
  let ?p = "entry_path (environ s) checksum"
  let ?r = "download_repodata_file s checksum url w"
  have A: "list_all (reader_ok s url ?p) (drop (length (seen w)) (seen (snd ?r)))"
    if "wf_fs (files w)" and "hexdigest checksum"
    using download_invariant[OF that assms, of url]
    by (auto simp: list_all_iff dest: extends_drop)
  have B: "fst ?r = Inl x' \<and>
           (\<forall>y. lookup (files w) (butlast ?p @ [y]) = None \<longrightarrow>
                lookup (files (snd ?r)) (butlast ?p @ [y]) = None)"
    if fl: "http s url = Broken cs x \<and>
              x' = (if is_OSError x
                    then RepoDownloadError (''Failed to download repodata file '' @ basename url)
                    else x) \<or>
            http s url = Unflushed cs x \<and> x' = x"
      and ex: "is_Exception x" and cl: "close_error s = None"
      and rq: "requests (snd ?r) = requests w @ [url]" for cs x x'
    using assms
  proof
    assume "open_rb (files w) ?p = Inl ENOENT"
    then have d: "?r = cache_miss s url ?p w"
      by (simp add: download_repodata_file_def Let_def)
    have "requests (snd (cache_miss s url ?p w)) \<noteq> requests w" using rq d by simp
    from cache_miss_failure[OF fl ex cl this] show ?thesis unfolding d .
  next
    assume "open_rb (files w) ?p = Inl EISDIR"
    let ?w0 = "commit (rmtree ?p (files w)) w"
    have d: "?r = cache_miss s url ?p ?w0"
      using \<open>open_rb (files w) ?p = Inl EISDIR\<close> by (simp add: download_repodata_file_def Let_def)
    have "requests (snd (cache_miss s url ?p ?w0)) \<noteq> requests ?w0"
      using rq d by (simp add: commit_simps)
    from cache_miss_failure[OF fl ex cl this]
    have 1: "fst (cache_miss s url ?p ?w0) = Inl x'"
      and 2: "\<And>y. lookup (files ?w0) (butlast ?p @ [y]) = None \<Longrightarrow>
                lookup (files (snd (cache_miss s url ?p ?w0))) (butlast ?p @ [y]) = None"
      by blast+
    have "lookup (files ?w0) q = None" if "lookup (files w) q = None" for q
      using rmtree_lookup[of ?p "files w" q] that by (auto simp: commit_simps)
    then show ?thesis unfolding d using 1 2 by blast
  qed
  show ?thesis
    unfolding Let_def split_beta
  proof (intro conjI impI allI, goal_cases)
    case 1
    then show ?case using A by simp
  next
    case (2 cs x)
    then show ?case using B[of cs x, OF disjI1] by simp
  next
    case (3 cs x y)
    then show ?case using B[of cs x, OF disjI1] by simp
  next
    case (4 cs x)
    then show ?case using B[of cs x x, OF disjI2] by simp
  next
    case (5 cs x y)
    then show ?case using B[of cs x x, OF disjI2] by simp
  qed
qed

text \<open>A run on the empty cache in which the server answers with the status 404.\<close>

lemma entry_ab12: "entry_path env0 ''ab12'' = [''c'', ''rpmdeplint'', ''a'', ''b12'']"
  by (simp add: env0_def entry_path_def base_path_def pjoin_def)

lemmas run_defs = download_repodata_file_def open_rb_def stat_def
        stat_simps0 ancestors_Nil lookup_def cache_miss_def mkdir_parents_def commit_def
        mkstemp_def fetch_to_cache_def stream_body_def write_chunks_def
        append_file_def unlink_def fs_del_def fchmod_def rename_def basename_def Let_def

lemma run2:
  "download_repodata_file sys2 ''ab12'' ''http://h/repodata/p.xml.gz'' world2 =
   (Inl (RepoDownloadError ''Failed to download repodata file p.xml.gz''),
  \<lparr>files =
     [([''c''], Dir True), ([''c'', ''rpmdeplint''], Dir True),
      ([''c'', ''rpmdeplint'', ''a''], Dir True)],
     seen =
       [[([''c''], Dir True), ([''c'', ''rpmdeplint''], Dir True)],
        [([''c''], Dir True), ([''c'', ''rpmdeplint''], Dir True),
         ([''c'', ''rpmdeplint'', ''a''], Dir True)],
        [([''c''], Dir True), ([''c'', ''rpmdeplint''], Dir True),
         ([''c'', ''rpmdeplint'', ''a''], Dir True),
         ([''c'', ''rpmdeplint'', ''a'', ''tmpk3x9''], File [] 1000 384)],
        [([''c''], Dir True), ([''c'', ''rpmdeplint''], Dir True),
         ([''c'', ''rpmdeplint'', ''a''], Dir True)]],
     requests = [''http://h/repodata/p.xml.gz'']\<rparr>)"
  by (simp add: sys2_def sys1_def world2_def tree2_def entry_ab12 run_defs)

theorem download_failure_cleanup_witness:
  "open_rb (files world2) (entry_path (environ sys2) ''ab12'') = Inl ENOENT \<and>
   wf_fs (files world2) \<and> hexdigest ''ab12'' \<and>
   http sys2 ''http://h/repodata/p.xml.gz'' = Broken [] (RequestException ''404 Client Error'') \<and>
   close_error sys2 = None \<and>
   fst (download_repodata_file sys2 ''ab12'' ''http://h/repodata/p.xml.gz'' world2)
     = Inl (RepoDownloadError ''Failed to download repodata file p.xml.gz'') \<and>
   requests (snd (download_repodata_file sys2 ''ab12'' ''http://h/repodata/p.xml.gz'' world2))
     = [''http://h/repodata/p.xml.gz''] \<and>
   lookup (files (snd (download_repodata_file sys2 ''ab12'' ''http://h/repodata/p.xml.gz'' world2)))
     [''c'', ''rpmdeplint'', ''a'', ''tmpk3x9''] = None \<and>
   list_all (reader_ok sys2 ''http://h/repodata/p.xml.gz'' [''c'', ''rpmdeplint'', ''a'', ''b12''])
     (drop 1 (seen (snd (download_repodata_file sys2 ''ab12'' ''http://h/repodata/p.xml.gz'' world2))))"
proof -
  let ?url = "''http://h/repodata/p.xml.gz''"
  let ?run = "download_repodata_file sys2 ''ab12'' ?url world2"
  let ?x = "RequestException ''404 Client Error''"
  have e: "environ sys2 = env0" by (simp add: sys2_def sys1_def)
  have h1: "open_rb (files world2) (entry_path (environ sys2) ''ab12'') = Inl ENOENT"
    by (simp add: e entry_ab12 world2_def tree2_def open_rb_def stat_def stat_simps0 lookup_def)
  have h2: "wf_fs (files world2)"
    by (simp add: world2_def tree2_def wf_fs_def is_dir_def stat_def stat_simps0 ancestors_Nil lookup_def)
  have h3: "hexdigest ''ab12''" by (simp add: hexdigest_def)
  have h4: "http sys2 ?url = Broken [] ?x"
    by (simp add: sys2_def)
  have h5: "close_error sys2 = None" by (simp add: sys2_def sys1_def)
  have rq: "requests (snd ?run) = requests world2 @ [?url]"
    unfolding run2 by (simp add: world2_def)
  have l: "lookup (files world2) (butlast [''c'', ''rpmdeplint'', ''a'', ''b12''] @ [''tmpk3x9'']) = None"
    by (simp add: world2_def tree2_def lookup_def)
  have len: "length (seen world2) = 1" by (simp add: world2_def)
  note T = download_failure_cleanup[OF disjI1[OF h1], of ?url, unfolded Let_def split_beta]
  have A: "list_all (reader_ok sys2 ?url [''c'', ''rpmdeplint'', ''a'', ''b12'']) (drop 1 (seen (snd ?run)))"
    using T[THEN conjunct1] h2 h3 len by (simp add: e entry_ab12)
  have BC: "fst ?run = Inl (if is_OSError ?x
                    then RepoDownloadError (''Failed to download repodata file '' @ basename ?url)
                    else ?x) \<and>
           (\<forall>y. lookup (files world2) (butlast (entry_path (environ sys2) ''ab12'') @ [y]) = None \<longrightarrow>
                lookup (files (snd ?run)) (butlast (entry_path (environ sys2) ''ab12'') @ [y]) = None)"
    by (rule T[THEN conjunct2, THEN conjunct1, THEN spec, THEN spec, THEN mp]) (simp add: h4 h5 rq)
  have B: "fst ?run = Inl (RepoDownloadError (''Failed to download repodata file '' @ basename ?url))"
    using BC by simp
  have C: "lookup (files (snd ?run)) [''c'', ''rpmdeplint'', ''a'', ''tmpk3x9''] = None"
    using BC l by (simp add: e entry_ab12)
  have bn: "basename ?url = ''p.xml.gz''" by (simp add: basename_def)
  have rq': "requests (snd ?run) = [?url]" by (simp add: run2)
  show ?thesis using h1 h2 h3 h4 h5 A B C rq' by (simp add: bn)
qed

text \<open>
  The claim as it is written fails on three downloads into the empty cache. The
  name \<^verbatim>\<open>tmpk3x9\<close> is free in the entry's directory before each call.

  An interrupt after the first chunk is not of class \<^verbatim>\<open>Exception\<close>: it passes the
  handler of line 126, and the temporary file stays, with the chunk in it.

  An error of \<^verbatim>\<open>urllib3\<close> raised by the stream is a failure of the transport and not
  an \<^verbatim>\<open>OSError\<close>: the temporary file is removed, but the caller gets the error itself
  and not a \<^verbatim>\<open>RepoDownloadError\<close>.

  On a full disk the flush raises, and the close in the handler raises again:
  the unlink of line 129 is not reached and the temporary file stays.

  In all three the entry's path holds no file afterwards.
\<close>

theorem download_failure_counterexample:
  "lookup (files world2) [''c'', ''rpmdeplint'', ''a'', ''tmpk3x9''] = None \<and>
   http sys_interrupt ''http://h/repodata/p.xml.gz'' = Broken [''he''] KeyboardInterrupt \<and>
   fst (download_repodata_file sys_interrupt ''ab12'' ''http://h/repodata/p.xml.gz'' world2)
     = Inl KeyboardInterrupt \<and>
   lookup (files (snd (download_repodata_file sys_interrupt ''ab12'' ''http://h/repodata/p.xml.gz'' world2)))
     [''c'', ''rpmdeplint'', ''a'', ''tmpk3x9''] = Some (File ''he'' 1000 384) \<and>
   lookup (files (snd (download_repodata_file sys_interrupt ''ab12'' ''http://h/repodata/p.xml.gz'' world2)))
     [''c'', ''rpmdeplint'', ''a'', ''b12''] = None \<and>
   http sys_stream_error ''http://h/repodata/p.xml.gz'' = Broken [''he''] (OtherException ''ProtocolError'') \<and>
   fst (download_repodata_file sys_stream_error ''ab12'' ''http://h/repodata/p.xml.gz'' world2)
     = Inl (OtherException ''ProtocolError'') \<and>
   lookup (files (snd (download_repodata_file sys_stream_error ''ab12'' ''http://h/repodata/p.xml.gz'' world2)))
     [''c'', ''rpmdeplint'', ''a'', ''tmpk3x9''] = None \<and>
   http sys_disk_full ''http://h/repodata/p.xml.gz'' = Unflushed [''he'', ''llo''] (OSError ENOSPC) \<and>
   close_error sys_disk_full = Some (OSError ENOSPC) \<and>
   fst (download_repodata_file sys_disk_full ''ab12'' ''http://h/repodata/p.xml.gz'' world2)
     = Inl (OSError ENOSPC) \<and>
   lookup (files (snd (download_repodata_file sys_disk_full ''ab12'' ''http://h/repodata/p.xml.gz'' world2)))
     [''c'', ''rpmdeplint'', ''a'', ''tmpk3x9''] = Some (File ''hello'' 1000 384) \<and>
   lookup (files (snd (download_repodata_file sys_disk_full ''ab12'' ''http://h/repodata/p.xml.gz'' world2)))
     [''c'', ''rpmdeplint'', ''a'', ''b12''] = None"
proof -
  let ?url = "''http://h/repodata/p.xml.gz''"
  have i: "download_repodata_file sys_interrupt ''ab12'' ?url world2 =
    (Inl KeyboardInterrupt,
     \<lparr>files =
        [([''c''], Dir True), ([''c'', ''rpmdeplint''], Dir True),
         ([''c'', ''rpmdeplint'', ''a''], Dir True),
         ([''c'', ''rpmdeplint'', ''a'', ''tmpk3x9''], File ''he'' 1000 384)],
      seen =
        [[([''c''], Dir True), ([''c'', ''rpmdeplint''], Dir True)],
         [([''c''], Dir True), ([''c'', ''rpmdeplint''], Dir True),
          ([''c'', ''rpmdeplint'', ''a''], Dir True)],
         [([''c''], Dir True), ([''c'', ''rpmdeplint''], Dir True),
          ([''c'', ''rpmdeplint'', ''a''], Dir True),
          ([''c'', ''rpmdeplint'', ''a'', ''tmpk3x9''], File [] 1000 384)],
         [([''c''], Dir True), ([''c'', ''rpmdeplint''], Dir True),
          ([''c'', ''rpmdeplint'', ''a''], Dir True),
          ([''c'', ''rpmdeplint'', ''a'', ''tmpk3x9''], File ''he'' 1000 384)]],
      requests = [?url]\<rparr>)"
    by (simp add: sys_interrupt_def sys1_def world2_def tree2_def entry_ab12 run_defs)
  have p: "download_repodata_file sys_stream_error ''ab12'' ?url world2 =
    (Inl (OtherException ''ProtocolError''),
     \<lparr>files =
        [([''c''], Dir True), ([''c'', ''rpmdeplint''], Dir True),
         ([''c'', ''rpmdeplint'', ''a''], Dir True)],
      seen =
        [[([''c''], Dir True), ([''c'', ''rpmdeplint''], Dir True)],
         [([''c''], Dir True), ([''c'', ''rpmdeplint''], Dir True),
          ([''c'', ''rpmdeplint'', ''a''], Dir True)],
         [([''c''], Dir True), ([''c'', ''rpmdeplint''], Dir True),
          ([''c'', ''rpmdeplint'', ''a''], Dir True),
          ([''c'', ''rpmdeplint'', ''a'', ''tmpk3x9''], File [] 1000 384)],
         [([''c''], Dir True), ([''c'', ''rpmdeplint''], Dir True),
          ([''c'', ''rpmdeplint'', ''a''], Dir True),
          ([''c'', ''rpmdeplint'', ''a'', ''tmpk3x9''], File ''he'' 1000 384)],
         [([''c''], Dir True), ([''c'', ''rpmdeplint''], Dir True),
          ([''c'', ''rpmdeplint'', ''a''], Dir True)]],
      requests = [?url]\<rparr>)"
    by (simp add: sys_stream_error_def sys1_def world2_def tree2_def entry_ab12 run_defs)
  have f: "download_repodata_file sys_disk_full ''ab12'' ?url world2 =
    (Inl (OSError ENOSPC),
     \<lparr>files =
        [([''c''], Dir True), ([''c'', ''rpmdeplint''], Dir True),
         ([''c'', ''rpmdeplint'', ''a''], Dir True),
         ([''c'', ''rpmdeplint'', ''a'', ''tmpk3x9''], File ''hello'' 1000 384)],
      seen =
        [[([''c''], Dir True), ([''c'', ''rpmdeplint''], Dir True)],
         [([''c''], Dir True), ([''c'', ''rpmdeplint''], Dir True),
          ([''c'', ''rpmdeplint'', ''a''], Dir True)],
         [([''c''], Dir True), ([''c'', ''rpmdeplint''], Dir True),
          ([''c'', ''rpmdeplint'', ''a''], Dir True),
          ([''c'', ''rpmdeplint'', ''a'', ''tmpk3x9''], File [] 1000 384)],
         [([''c''], Dir True), ([''c'', ''rpmdeplint''], Dir True),
          ([''c'', ''rpmdeplint'', ''a''], Dir True),
          ([''c'', ''rpmdeplint'', ''a'', ''tmpk3x9''], File ''he'' 1000 384)],
         [([''c''], Dir True), ([''c'', ''rpmdeplint''], Dir True),
          ([''c'', ''rpmdeplint'', ''a''], Dir True),
          ([''c'', ''rpmdeplint'', ''a'', ''tmpk3x9''], File ''hello'' 1000 384)]],
      requests = [?url]\<rparr>)"
    by (simp add: sys_disk_full_def sys1_def world2_def tree2_def entry_ab12 run_defs)
  have 0: "lookup (files world2) [''c'', ''rpmdeplint'', ''a'', ''tmpk3x9''] = None"
    by (simp add: world2_def tree2_def lookup_def)
  have h: "http sys_interrupt ?url = Broken [''he''] KeyboardInterrupt"
    "http sys_stream_error ?url = Broken [''he''] (OtherException ''ProtocolError'')"
    "http sys_disk_full ?url = Unflushed [''he'', ''llo''] (OSError ENOSPC)"
    "close_error sys_disk_full = Some (OSError ENOSPC)"
    by (simp_all add: sys_interrupt_def sys_stream_error_def sys_disk_full_def)
  show ?thesis unfolding i p f using 0 h by (simp add: lookup_def)
qed

subsection \<open>A directory in place of an entry\<close>

lemma rename_file:
  assumes "walk fs (ancestors t) = None" and "lookup fs t = Some (File c m md)"
    and "walk fs (prefixes (butlast p)) = None" and "lookup fs p = None" and "t \<noteq> p"
  shows "rename t p fs = Inr (fs_put p (File c m md) (fs_del t fs))"
proof -
  have st: "stat fs t = Inr (File c m md)" using assms(1,2) by (rule stat_InrI)
  from walk_prefixes_stat[OF assms(3)] obtain r where "stat fs (butlast p) = Inr (Dir r)" by blast
  then show ?thesis using st assms(4,5) by (simp add: rename_def)
qed

lemma miss_success:
  fixes w :: world
  assumes pd: "p = d @ [y]" and tp: "\<And>n. d @ [''tmp'' @ n] \<noteq> p"
    and wd: "walk (files w) (prefixes d) = None" and lp: "lookup (files w) p = None"
    and free: "\<exists>n \<in> set (tmp_names s). lookup (files w) (d @ [''tmp'' @ n]) = None"
    and fd: "fdopen_error s = None" and ok: "http s url = Fetched cs"
  shows "fst (cache_miss s url p w) = Inr \<lparr>h_path = p, h_data = concat cs\<rparr> \<and>
         lookup (files (snd (cache_miss s url p w))) p = Some (File (concat cs) (clock s) 420) \<and>
         open_rb (files (snd (cache_miss s url p w))) p = Inr (concat cs)"
proof -
  have bl: "butlast p = d" using pd by simp
  have mk: "mkdir_parents d w = (None, w)"
    unfolding mkdir_parents_def using wd by (rule mkdirs_walk)
  from walk_prefixes_stat[OF wd] obtain r where sd: "stat (files w) d = Inr (Dir r)" by blast
  from free have "find (\<lambda>n. lookup (files w) (d @ [''tmp'' @ n]) = None) (tmp_names s) \<noteq> None"
    unfolding find_None_iff by blast
  then obtain n where f: "find (\<lambda>n. lookup (files w) (d @ [''tmp'' @ n]) = None) (tmp_names s) = Some n"
    by blast
  then have fr: "lookup (files w) (d @ [''tmp'' @ n]) = None" by (auto simp: find_Some_iff)
  let ?t = "d @ [''tmp'' @ n]"
  let ?fsB = "fs_put ?t (File [] (clock s) 384) (files w)"
  let ?wB = "commit ?fsB w"
  have ms: "mkstemp d (tmp_names s) (clock s) (files w) = Inr (?t, ?fsB)"
    using sd f by (simp add: mkstemp_def)
  have cm: "cache_miss s url p w = fetch_to_cache s url ?t p ?wB"
    using mk ms fd by (simp add: cache_miss_def bl)
  have ne: "?t \<noteq> []" and tnp: "?t \<noteq> p" using tp by simp_all
  let ?wc = "write_chunks ?t cs (clock s) (?wB\<lparr>requests := requests ?wB @ [url]\<rparr>)"
  let ?fs2 = "fs_put ?t (File (concat cs) (clock s) 420) (files ?wc)"
  let ?w2 = "commit ?fs2 ?wc"
  let ?fs3 = "fs_put p (File (concat cs) (clock s) 420) (fs_del ?t ?fs2)"
  have lt: "lookup (files ?wB) ?t = Some (File [] (clock s) 384)"
    using ne by (simp add: commit_simps lookup_fs_put)
  note st = streamed[OF ne lt, of cs url]
  have fc: "fchmod ?t 420 (files ?wc) = ?fs2" using st(1) by (simp add: fchmod_def)
  have soB: "same_off ?t (files w) (files ?wB)"
    using ne by (simp add: commit_simps same_off_put same_off_refl)
  have so2: "same_off ?t (files w) ?fs2"
    using ne same_off_trans[OF soB st(2)] by (rule same_off_put)
  have at: "ancestors ?t = prefixes d" by (rule ancestors_snoc)
  have pre: "lookup ?fs2 q = lookup (files w) q" if "q \<in> set (prefixes d)" for q
  proof -
    have "q \<noteq> ?t" using that by (auto simp: prefix_def)
    then show ?thesis using so2 by (simp add: same_off_def)
  qed
  have w2: "walk ?fs2 (prefixes d) = None"
    using walk_cong[of "prefixes d" ?fs2 "files w"] pre wd by simp
  have l2: "lookup ?fs2 ?t = Some (File (concat cs) (clock s) 420)"
    using ne by (simp add: lookup_fs_put)
  have lp2: "lookup ?fs2 p = None" using so2 tnp lp by (simp add: same_off_def)
  have w2a: "walk ?fs2 (ancestors ?t) = None" unfolding at by (rule w2)
  have w2b: "walk ?fs2 (prefixes (butlast p)) = None" unfolding bl by (rule w2)
  have "rename ?t p ?fs2 = Inr ?fs3" by (rule rename_file[OF w2a l2 w2b lp2 tnp])
  then have rn: "rename ?t p (files ?w2) = Inr ?fs3" unfolding commit_simps .
  have res: "fetch_to_cache s url ?t p ?wB = (Inr \<lparr>h_path = p, h_data = concat cs\<rparr>, commit ?fs3 ?w2)"
    unfolding fetch_fetched_eq[OF ok] Let_def fc using rn l2 by (simp add: commit_simps)
  have pne: "p \<noteq> []" using pd by simp
  have l3: "lookup ?fs3 p = Some (File (concat cs) (clock s) 420)"
    using pne by (simp add: lookup_fs_put)
  have pre3: "lookup ?fs3 q = lookup ?fs2 q" if "q \<in> set (prefixes d)" for q
  proof -
    have "q \<noteq> ?t" "q \<noteq> p" using that pd by (auto simp: prefix_def)
    then show ?thesis using pne by (simp add: lookup_fs_put lookup_fs_del)
  qed
  have "walk ?fs3 (prefixes d) = None"
    using walk_cong[of "prefixes d" ?fs3 ?fs2] pre3 w2 by simp
  moreover have "ancestors p = prefixes d" unfolding pd by (rule ancestors_snoc)
  ultimately have o3: "open_rb ?fs3 p = Inr (concat cs)"
    using l3 by (intro open_rb_file) simp_all
  show ?thesis unfolding cm res using l3 o3 by (simp add: commit_simps)
qed

lemma miss_blocked:
  fixes w :: world
  assumes pd: "p = d @ [y]" and tp: "\<And>n. d @ [''tmp'' @ n] \<noteq> p"
    and wd: "walk (files w) (prefixes d) = None" and lp: "lookup (files w) p = Some (Dir r0)"
    and free: "\<exists>n \<in> set (tmp_names s). lookup (files w) (d @ [''tmp'' @ n]) = None"
    and fd: "fdopen_error s = None" and ok: "http s url = Fetched cs"
    and cl: "close_error s = None"
  shows "fst (cache_miss s url p w) = Inl (OSError EISDIR) \<and>
         lookup (files (snd (cache_miss s url p w))) p = Some (Dir r0)"
proof -
  have bl: "butlast p = d" using pd by simp
  have mk: "mkdir_parents d w = (None, w)"
    unfolding mkdir_parents_def using wd by (rule mkdirs_walk)
  from walk_prefixes_stat[OF wd] obtain r where sd: "stat (files w) d = Inr (Dir r)" by blast
  from free have "find (\<lambda>n. lookup (files w) (d @ [''tmp'' @ n]) = None) (tmp_names s) \<noteq> None"
    unfolding find_None_iff by blast
  then obtain n where f: "find (\<lambda>n. lookup (files w) (d @ [''tmp'' @ n]) = None) (tmp_names s) = Some n"
    by blast
  then have fr: "lookup (files w) (d @ [''tmp'' @ n]) = None" by (auto simp: find_Some_iff)
  let ?t = "d @ [''tmp'' @ n]"
  let ?fsB = "fs_put ?t (File [] (clock s) 384) (files w)"
  let ?wB = "commit ?fsB w"
  have ms: "mkstemp d (tmp_names s) (clock s) (files w) = Inr (?t, ?fsB)"
    using sd f by (simp add: mkstemp_def)
  have cm: "cache_miss s url p w = fetch_to_cache s url ?t p ?wB"
    using mk ms fd by (simp add: cache_miss_def bl)
  have ne: "?t \<noteq> []" and tnp: "?t \<noteq> p" using tp by simp_all
  let ?wc = "write_chunks ?t cs (clock s) (?wB\<lparr>requests := requests ?wB @ [url]\<rparr>)"
  let ?fs2 = "fs_put ?t (File (concat cs) (clock s) 420) (files ?wc)"
  let ?w2 = "commit ?fs2 ?wc"
  let ?fs3 = "fs_put p (File (concat cs) (clock s) 420) (fs_del ?t ?fs2)"
  have lt: "lookup (files ?wB) ?t = Some (File [] (clock s) 384)"
    using ne by (simp add: commit_simps lookup_fs_put)
  note st = streamed[OF ne lt, of cs url]
  have fc: "fchmod ?t 420 (files ?wc) = ?fs2" using st(1) by (simp add: fchmod_def)
  have soB: "same_off ?t (files w) (files ?wB)"
    using ne by (simp add: commit_simps same_off_put same_off_refl)
  have so2: "same_off ?t (files w) ?fs2"
    using ne same_off_trans[OF soB st(2)] by (rule same_off_put)
  have at: "ancestors ?t = prefixes d" by (rule ancestors_snoc)
  have pre: "lookup ?fs2 q = lookup (files w) q" if "q \<in> set (prefixes d)" for q
  proof -
    have "q \<noteq> ?t" using that by (auto simp: prefix_def)
    then show ?thesis using so2 by (simp add: same_off_def)
  qed
  have w2: "walk ?fs2 (prefixes d) = None"
    using walk_cong[of "prefixes d" ?fs2 "files w"] pre wd by simp
  have l2: "lookup ?fs2 ?t = Some (File (concat cs) (clock s) 420)"
    using ne by (simp add: lookup_fs_put)
  have lp2: "lookup ?fs2 p = Some (Dir r0)" using so2 tnp lp by (simp add: same_off_def)
  have w2a: "walk ?fs2 (ancestors ?t) = None" unfolding at by (rule w2)
  have w2b: "walk ?fs2 (prefixes (butlast p)) = None" unfolding bl by (rule w2)
  have st: "stat ?fs2 ?t = Inr (File (concat cs) (clock s) 420)" using w2a l2 by (rule stat_InrI)
  from walk_prefixes_stat[OF w2b] obtain r' where "stat ?fs2 (butlast p) = Inr (Dir r')" by blast
  then have "rename ?t p ?fs2 = Inl EISDIR" using st lp2 by (simp add: rename_def)
  then have rn: "rename ?t p (files ?w2) = Inl EISDIR" unfolding commit_simps .
  have "unlink ?t ?fs2 = Inr (fs_del ?t ?fs2)" using w2a l2 by (rule unlink_file)
  then have ul: "unlink ?t (files ?w2) = Inr (fs_del ?t ?fs2)" unfolding commit_simps .
  have res: "fetch_to_cache s url ?t p ?wB = (Inl (OSError EISDIR), commit (fs_del ?t ?fs2) ?w2)"
    unfolding fetch_fetched_eq[OF ok] Let_def fc using rn ul cl by simp
  have "lookup (fs_del ?t ?fs2) p = Some (Dir r0)" using lp2 tnp by (simp add: lookup_fs_del)
  then show ?thesis unfolding cm res by (simp add: commit_simps)
qed

text \<open>
  Claim C8, as the code has it. When a readable directory lies at the entry's path,
  opening it gives \<open>EISDIR\<close> and \<^verbatim>\<open>Cache.download_repodata_file\<close> removes the tree
  with \<^verbatim>\<open>shutil.rmtree(ignore_errors=True)\<close> and goes on as for a miss. When every
  directory of that tree can be read (so that the tree does go away), the checksum
  is hexadecimal, \<^verbatim>\<open>mkstemp\<close> finds a free name, \<^verbatim>\<open>fdopen\<close> works and the download
  succeeds, the call returns a handle on the body, and the entry's path holds a
  regular file with the body, mode \<^verbatim>\<open>0o644\<close>, that opens for reading.
\<close>

theorem legacy_directory_repair:
  assumes "open_rb (files w) (entry_path (environ s) checksum) = Inl EISDIR"
    and "blocked (entry_path (environ s) checksum) (files w) = []"
    and "hexdigest checksum"
    and "\<exists>n \<in> set (tmp_names s).
           lookup (files w) (butlast (entry_path (environ s) checksum) @ [''tmp'' @ n]) = None"
    and "fdopen_error s = None"
    and "http s url = Fetched cs"
  shows "(let p = entry_path (environ s) checksum;
              (r, w') = download_repodata_file s checksum url w in
          r = Inr \<lparr>h_path = p, h_data = concat cs\<rparr> \<and>
          lookup (files w') p = Some (File (concat cs) (clock s) 420) \<and>
          open_rb (files w') p = Inr (concat cs))"
proof -
  let ?p = "entry_path (environ s) checksum"
  let ?w0 = "commit (rmtree ?p (files w)) w"
  from entry_path_last[OF assms(3), of "environ s"] obtain d y where pd: "?p = d @ [y]" by blast
  have bl: "butlast ?p = d" using pd by simp
  have tp: "\<And>n. d @ [''tmp'' @ n] \<noteq> ?p" using tmp_not_entry[OF assms(3), of "environ s"] bl by simp
  have sp: "stat (files w) ?p = Inr (Dir True)" using assms(1) by (rule eisdir_dir)
  then have isd: "is_dir (files w) ?p" unfolding is_dir_iff by blast
  have d: "download_repodata_file s checksum url w = cache_miss s url ?p ?w0"
    using assms(1) by (simp add: download_repodata_file_def Let_def)
  have out: "lookup (files ?w0) q = lookup (files w) q" if "q \<in> set (prefixes d)" for q
  proof -
    have "\<not> prefix ?p q" using that pd by (auto simp: prefix_def)
    then show ?thesis by (simp add: commit_simps rmtree_outside)
  qed
  have "walk (files w) (prefixes d) = None"
    using stat_InrD[OF sp] ancestors_snoc[of d y] pd by simp
  then have wd: "walk (files ?w0) (prefixes d) = None"
    using walk_cong[of "prefixes d" "files ?w0" "files w"] out by simp
  have lp: "lookup (files ?w0) ?p = None"
    using rmtree_gone[OF isd assms(2)] pd by (simp add: commit_simps)
  have free: "\<exists>n \<in> set (tmp_names s). lookup (files ?w0) (d @ [''tmp'' @ n]) = None"
  proof -
    from assms(4) obtain n where n: "n \<in> set (tmp_names s)"
      and "lookup (files w) (d @ [''tmp'' @ n]) = None" unfolding bl by blast
    then have "lookup (files ?w0) (d @ [''tmp'' @ n]) = None"
      using rmtree_lookup[of ?p "files w" "d @ [''tmp'' @ n]"] by (auto simp: commit_simps)
    then show ?thesis using n by blast
  qed
  from miss_success[OF pd tp wd lp free assms(5,6)]
  show ?thesis unfolding Let_def split_beta d by simp
qed

lemma environ_sys1: "environ sys1 = env0"
  by (simp add: sys1_def)

theorem legacy_directory_repair_witness:
  "open_rb (files world3) (entry_path (environ sys1) ''ab12'') = Inl EISDIR \<and>
   blocked (entry_path (environ sys1) ''ab12'') (files world3) = [] \<and>
   http sys1 ''http://h/repodata/p.xml.gz'' = Fetched [''he'', ''llo''] \<and>
   fst (download_repodata_file sys1 ''ab12'' ''http://h/repodata/p.xml.gz'' world3)
     = Inr \<lparr>h_path = [''c'', ''rpmdeplint'', ''a'', ''b12''], h_data = ''hello''\<rparr> \<and>
   lookup (files (snd (download_repodata_file sys1 ''ab12'' ''http://h/repodata/p.xml.gz'' world3)))
     [''c'', ''rpmdeplint'', ''a'', ''b12''] = Some (File ''hello'' 1000 420)"
proof -
  let ?url = "''http://h/repodata/p.xml.gz''"
  have h1: "open_rb (files world3) (entry_path (environ sys1) ''ab12'') = Inl EISDIR"
    by (simp add: environ_sys1 entry_ab12 world3_def tree3_def open_rb_def stat_def stat_simps0 lookup_def)
  have h2: "blocked (entry_path (environ sys1) ''ab12'') (files world3) = []"
    by (simp add: environ_sys1 entry_ab12 world3_def tree3_def blocked_def)
  have h3: "hexdigest ''ab12''" by (simp add: hexdigest_def)
  have h4: "\<exists>n \<in> set (tmp_names sys1).
      lookup (files world3) (butlast (entry_path (environ sys1) ''ab12'') @ [''tmp'' @ n]) = None"
    by (simp add: environ_sys1 entry_ab12 sys1_def world3_def tree3_def lookup_def)
  have h5: "fdopen_error sys1 = None" by (simp add: sys1_def)
  have h6: "http sys1 ?url = Fetched [''he'', ''llo'']" by (simp add: sys1_def)
  have c: "clock sys1 = 1000" by (simp add: sys1_def)
  show ?thesis
    using legacy_directory_repair[OF h1 h2 h3 h4 h5 h6] h1 h2 h6
    by (simp add: Let_def split_beta environ_sys1 entry_ab12 c)
qed

lemma rm4: "rmtree [''c'', ''rpmdeplint'', ''a'', ''b12''] tree4 = tree4"
  by (simp add: tree4_def rmtree_def blocked_def is_dir_def stat_def stat_simps0 lookup_def)

lemma open4: "open_rb tree4 [''c'', ''rpmdeplint'', ''a'', ''b12''] = Inl EISDIR"
  by (simp add: tree4_def open_rb_def stat_def stat_simps0 lookup_def)

lemma miss4:
  "download_repodata_file sys1 ''ab12'' ''http://h/repodata/p.xml.gz'' world4 =
   cache_miss sys1 ''http://h/repodata/p.xml.gz'' [''c'', ''rpmdeplint'', ''a'', ''b12'']
     (commit tree4 world4)"
  by (simp add: download_repodata_file_def Let_def environ_sys1 entry_ab12 world4_def open4 rm4)

text \<open>
  The repair itself can fail without a word: \<^verbatim>\<open>rmtree\<close> ignores its errors. Here the
  old directory holds a directory that cannot be read, so it stays; the download
  succeeds, the rename onto the directory fails, and the caller gets that
  \<^verbatim>\<open>OSError\<close> while the entry's path is still a directory.
\<close>

theorem legacy_directory_counterexample:
  "open_rb (files world4) (entry_path (environ sys1) ''ab12'') = Inl EISDIR \<and>
   http sys1 ''http://h/repodata/p.xml.gz'' = Fetched [''he'', ''llo''] \<and>
   fst (download_repodata_file sys1 ''ab12'' ''http://h/repodata/p.xml.gz'' world4)
     = Inl (OSError EISDIR) \<and>
   lookup (files (snd (download_repodata_file sys1 ''ab12'' ''http://h/repodata/p.xml.gz'' world4)))
     (entry_path (environ sys1) ''ab12'') = Some (Dir True)"
proof -
  let ?w = "commit tree4 world4"
  have pd: "[''c'', ''rpmdeplint'', ''a'', ''b12''] = [''c'', ''rpmdeplint'', ''a''] @ [''b12'']" by simp
  have tp: "\<And>n. [''c'', ''rpmdeplint'', ''a''] @ [''tmp'' @ n] \<noteq> [''c'', ''rpmdeplint'', ''a'', ''b12'']"
    by simp
  have wd: "walk (files ?w) (prefixes [''c'', ''rpmdeplint'', ''a'']) = None"
    by (simp add: commit_simps tree4_def lookup_def)
  have lp: "lookup (files ?w) [''c'', ''rpmdeplint'', ''a'', ''b12''] = Some (Dir True)"
    by (simp add: commit_simps tree4_def lookup_def)
  have free: "\<exists>n \<in> set (tmp_names sys1). lookup (files ?w) ([''c'', ''rpmdeplint'', ''a''] @ [''tmp'' @ n]) = None"
    by (simp add: commit_simps sys1_def tree4_def lookup_def)
  have fd: "fdopen_error sys1 = None" by (simp add: sys1_def)
  have ok: "http sys1 ''http://h/repodata/p.xml.gz'' = Fetched [''he'', ''llo'']" by (simp add: sys1_def)
  have o: "open_rb (files world4) (entry_path (environ sys1) ''ab12'') = Inl EISDIR"
    by (simp add: environ_sys1 entry_ab12 world4_def open4)
  have cl: "close_error sys1 = None" by (simp add: sys1_def)
  from miss_blocked[OF pd tp wd lp free fd ok cl] o ok
  show ?thesis unfolding miss4 by (simp add: environ_sys1 entry_ab12)
qed

section \<open>Properties of repositories\<close>

subsection \<open>Construction\<close>

text \<open>
  Claim C7 at the inputs that decide it. The constructor's docstring asks for exactly
  one of \<^verbatim>\<open>baseurl\<close> and \<^verbatim>\<open>metalink\<close>; its test rejects the call that gives neither,
  and accepts the call that gives both: the object then has both set.
\<close>

theorem Repo_init_checks_neither_only:
  "Repo_init ''r'' None None False
     = Inl (RuntimeError ''Must specify either baseurl or metalink for repo'') \<and>
   Repo_init ''r'' (Some ''http://a.invalid/'') (Some ''http://b.invalid/metalink'') False
     = Inr \<lparr>name = ''r'', baseurl = Some ''http://a.invalid/'',
            metalink = Some ''http://b.invalid/metalink'', skip_if_unavailable = False,
            librepo_handle = None, root_path = None\<rparr>"
  by (simp add: Repo_init_def truthy_def)

subsection \<open>Sections of the configuration\<close>

lemma from_yum_config_append:
  "snd (from_yum_config yv pre) = None \<Longrightarrow>
   from_yum_config yv (pre @ secs) =
     (fst (from_yum_config yv pre) @ fst (from_yum_config yv secs), snd (from_yum_config yv secs))"
  by (induction pre) (auto split: sum.splits option.splits prod.splits)

lemma Repo_init_InrD:
  "Repo_init n b m sk = Inr r \<Longrightarrow>
   name r = n \<and> baseurl r = b \<and> metalink r = m \<and> skip_if_unavailable r = sk \<and> (truthy b \<or> truthy m)"
  by (auto simp: Repo_init_def split: if_splits)

lemma map_sum_Some_InrD: "map_sum id Some x = Inr (Some r) \<Longrightarrow> x = Inr r"
  by (cases x) auto

text \<open>
  Claim C6, as the code has it. Take a section other than \<^verbatim>\<open>main\<close> that is enabled
  (no \<^verbatim>\<open>enabled\<close> option, or one that reads as true) and whose \<^verbatim>\<open>skip_if_unavailable\<close>,
  if present, reads as a boolean.

  \<^item> With none of \<^verbatim>\<open>baseurl\<close>, \<^verbatim>\<open>metalink\<close>, \<^verbatim>\<open>mirrorlist\<close>, the iteration ends at this
    section with a \<^verbatim>\<open>ValueError\<close> that names it, after the repositories of the
    sections before it.
  \<^item> With \<^verbatim>\<open>baseurl\<close>, the section is built from the substituted \<^verbatim>\<open>baseurl\<close> alone,
    whatever else it has; without \<^verbatim>\<open>baseurl\<close> and with \<^verbatim>\<open>metalink\<close>, from the
    substituted \<^verbatim>\<open>metalink\<close> alone.
  \<^item> With \<^verbatim>\<open>mirrorlist\<close> only, the section does what it would do with the same
    value as its \<^verbatim>\<open>metalink\<close>.
  \<^item> A repository that the section yields carries the section's name and exactly
    one of \<^verbatim>\<open>baseurl\<close> and \<^verbatim>\<open>metalink\<close>.
\<close>

theorem from_yum_config_sources:
  assumes "section \<noteq> ''main''"
    and "(case map_of opts ''enabled'' of None \<Rightarrow> Inr True | Some v \<Rightarrow> getboolean v) = Inr True"
    and "(case map_of opts ''skip_if_unavailable'' of None \<Rightarrow> Inr False | Some v \<Rightarrow> getboolean v)
           = Inr skip"
  shows "(map_of opts ''baseurl'' = None \<and> map_of opts ''metalink'' = None \<and>
          map_of opts ''mirrorlist'' = None \<longrightarrow>
            (\<forall>pre rest. snd (from_yum_config yv pre) = None \<longrightarrow>
               from_yum_config yv (pre @ (section, opts) # rest) =
                 (fst (from_yum_config yv pre),
                  Some (ValueError (''Yum config section '' @ section @
                        '' has no baseurl or metalink or mirrorlist''))))) \<and>
         (\<forall>v. map_of opts ''baseurl'' = Some v \<longrightarrow>
            section_repo yv (section, opts) =
              map_sum id Some (Repo_init section (Some (substitute_yumvars v yv)) None skip)) \<and>
         (\<forall>v. map_of opts ''baseurl'' = None \<and> map_of opts ''metalink'' = Some v \<longrightarrow>
            section_repo yv (section, opts) =
              map_sum id Some (Repo_init section None (Some (substitute_yumvars v yv)) skip)) \<and>
         (\<forall>v. map_of opts ''baseurl'' = None \<and> map_of opts ''metalink'' = None \<and>
              map_of opts ''mirrorlist'' = Some v \<longrightarrow>
            section_repo yv (section, opts) = section_repo yv (section, (''metalink'', v) # opts)) \<and>
         (\<forall>r. section_repo yv (section, opts) = Inr (Some r) \<longrightarrow>
            name r = section \<and> (baseurl r = None) \<noteq> (metalink r = None))"
proof (intro conjI allI impI)
  fix pre rest
  assume none: "map_of opts ''baseurl'' = None \<and> map_of opts ''metalink'' = None \<and>
          map_of opts ''mirrorlist'' = None"
    and pre: "snd (from_yum_config yv pre) = None"
  have "section_repo yv (section, opts) = Inl (ValueError (''Yum config section '' @ section @
                        '' has no baseurl or metalink or mirrorlist''))"
    using assms none by (simp add: section_repo_def)
  then show "from_yum_config yv (pre @ (section, opts) # rest) =
                 (fst (from_yum_config yv pre),
                  Some (ValueError (''Yum config section '' @ section @
                        '' has no baseurl or metalink or mirrorlist'')))"
    by (simp add: from_yum_config_append[OF pre])
next
  fix v assume "map_of opts ''baseurl'' = Some v"
  then show "section_repo yv (section, opts) =
              map_sum id Some (Repo_init section (Some (substitute_yumvars v yv)) None skip)"
    using assms by (simp add: section_repo_def)
next
  fix v assume "map_of opts ''baseurl'' = None \<and> map_of opts ''metalink'' = Some v"
  then show "section_repo yv (section, opts) =
              map_sum id Some (Repo_init section None (Some (substitute_yumvars v yv)) skip)"
    using assms by (simp add: section_repo_def)
next
  fix v assume "map_of opts ''baseurl'' = None \<and> map_of opts ''metalink'' = None \<and>
              map_of opts ''mirrorlist'' = Some v"
  then show "section_repo yv (section, opts) = section_repo yv (section, (''metalink'', v) # opts)"
    using assms by (simp add: section_repo_def)
next
  fix r assume r: "section_repo yv (section, opts) = Inr (Some r)"
  show "name r = section"
    using r assms
    by (auto simp: section_repo_def split: option.splits dest!: map_sum_Some_InrD Repo_init_InrD)
next
  fix r assume r: "section_repo yv (section, opts) = Inr (Some r)"
  show "(baseurl r = None) \<noteq> (metalink r = None)"
    using r assms
    by (auto simp: section_repo_def truthy_def split: option.splits
        dest!: map_sum_Some_InrD Repo_init_InrD)
qed

theorem from_yum_config_sources_witness:
  "''dummy'' \<noteq> ''main'' \<and>
   section_repo [(''releasever'', ''21''), (''basearch'', ''s390x'')]
     (''dummy'', [(''name'', ''Dummy''),
                  (''baseurl'', ''http://example.invalid/$releasever/$basearch/'')])
   = Inr (Some \<lparr>name = ''dummy'', baseurl = Some ''http://example.invalid/21/s390x/'',
                 metalink = None, skip_if_unavailable = False,
                 librepo_handle = None, root_path = None\<rparr>) \<and>
   from_yum_config [] [(''dummy'', [(''name'', ''Dummy''), (''enabled'', ''1'')])]
   = ([], Some (ValueError ''Yum config section dummy has no baseurl or metalink or mirrorlist''))"
proof -
  let ?yv = "[(''releasever'', ''21''), (''basearch'', ''s390x'')]"
  let ?o1 = "[(''name'', ''Dummy''), (''baseurl'', ''http://example.invalid/$releasever/$basearch/'')]"
  let ?o2 = "[(''name'', ''Dummy''), (''enabled'', ''1'')]"
  have n: "''dummy'' \<noteq> ''main''" by simp
  have e1: "(case map_of ?o1 ''enabled'' of None \<Rightarrow> Inr True | Some v \<Rightarrow> getboolean v) = Inr True"
    by simp
  have s1: "(case map_of ?o1 ''skip_if_unavailable'' of None \<Rightarrow> Inr False | Some v \<Rightarrow> getboolean v)
      = Inr False" by simp
  have e2: "(case map_of ?o2 ''enabled'' of None \<Rightarrow> Inr True | Some v \<Rightarrow> getboolean v) = Inr True"
    by (simp add: getboolean_def lower_def)
  have s2: "(case map_of ?o2 ''skip_if_unavailable'' of None \<Rightarrow> Inr False | Some v \<Rightarrow> getboolean v)
      = Inr False" by simp
  have sub: "substitute_yumvars ''http://example.invalid/$releasever/$basearch/'' ?yv
      = ''http://example.invalid/21/s390x/''"
    by (simp add: substitute_yumvars_def)
  have a: "section_repo ?yv (''dummy'', ?o1)
      = map_sum id Some (Repo_init ''dummy''
          (Some (substitute_yumvars ''http://example.invalid/$releasever/$basearch/'' ?yv)) None False)"
    by (rule from_yum_config_sources[OF n e1 s1, THEN conjunct2, THEN conjunct1, THEN spec, THEN mp])
       simp
  have b: "from_yum_config [] ([] @ (''dummy'', ?o2) # [])
      = (fst (from_yum_config [] []),
         Some (ValueError (''Yum config section '' @ ''dummy'' @
                        '' has no baseurl or metalink or mirrorlist'')))"
    by (rule from_yum_config_sources[OF n e2 s2, THEN conjunct1, THEN mp, THEN spec, THEN spec, THEN mp])
       simp_all
  show ?thesis using a b by (simp add: sub Repo_init_def truthy_def)
qed

text \<open>
  A section is not required to have exactly one of the three: this one has a
  \<^verbatim>\<open>baseurl\<close> and a \<^verbatim>\<open>metalink\<close>, and it loads, from its \<^verbatim>\<open>baseurl\<close>.
\<close>

theorem from_yum_config_two_sources_counterexample:
  "from_yum_config []
     [(''dummy'', [(''name'', ''Dummy''), (''baseurl'', ''http://example.invalid/dummy''),
                   (''metalink'', ''http://example.invalid/metalink'')])]
   = ([\<lparr>name = ''dummy'', baseurl = Some ''http://example.invalid/dummy'', metalink = None,
        skip_if_unavailable = False, librepo_handle = None, root_path = None\<rparr>], None)"
  by (simp add: section_repo_def substitute_yumvars_def Repo_init_def truthy_def)

subsection \<open>Local repositories\<close>






subsection \<open>The escalation of byte ranges\<close>

lemma fetch_ranges_prefix:
  "\<exists>k. k \<le> length bs \<and> (bs \<noteq> [] \<longrightarrow> 1 \<le> k) \<and>
       attempts (snd (fetch_ranges out self rd loc burl bs lp st)) = attempts st @ take k bs"
proof (induction bs arbitrary: lp st)
  case Nil
  then show ?case by simp
next
  case (Cons b bs)
  obtain err lp' disk' where d: "download_packages out loc burl rd b (disk st) = (err, lp', disk')"
    by (cases "download_packages out loc burl rd b (disk st)")
  let ?st' = "\<lparr>disk = disk', attempts = attempts st @ [b]\<rparr>"
  from Cons.IH[of lp' ?st'] obtain k where k: "k \<le> length bs"
    and a: "attempts (snd (fetch_ranges out self rd loc burl bs lp' ?st')) = attempts ?st' @ take k bs"
    by blast
  have one: "attempts ?st' = attempts st @ take 1 (b # bs)" by simp
  have more: "attempts ?st' @ take k bs = attempts st @ take (Suc k) (b # bs)" by simp
  have eq: "fetch_ranges out self rd loc burl (b # bs) lp st =
      (if truthy err \<and> err \<noteq> Some ''Already downloaded'' then
         (Inl (PackageDownloadError
                (''Failed to download '' @ loc @ '' from repo '' @ name self @ '': '' @
                 (case err of None \<Rightarrow> [] | Some m \<Rightarrow> m))), ?st')
       else
         (case is_header_complete out disk' lp' of
            Inl x \<Rightarrow> (Inl x, ?st')
          | Inr True \<Rightarrow> (Inr lp', ?st')
          | Inr False \<Rightarrow> fetch_ranges out self rd loc burl bs lp' ?st'))"
    using d by (simp add: Let_def)
  have "attempts (snd (fetch_ranges out self rd loc burl (b # bs) lp st)) = attempts ?st' \<or>
        fetch_ranges out self rd loc burl (b # bs) lp st = fetch_ranges out self rd loc burl bs lp' ?st'"
  proof (cases "truthy err \<and> err \<noteq> Some ''Already downloaded''")
    case True
    then show ?thesis unfolding eq by simp
  next
    case False
    show ?thesis
    proof (cases "is_header_complete out disk' lp'")
      case (Inl x)
      then show ?thesis unfolding eq using False by simp
    next
      case (Inr c)
      then show ?thesis unfolding eq using False by (cases c) simp_all
    qed
  qed
  then show ?case
  proof
    assume "attempts (snd (fetch_ranges out self rd loc burl (b # bs) lp st)) = attempts ?st'"
    then show ?thesis using one by (intro exI[of _ 1]) simp
  next
    assume "fetch_ranges out self rd loc burl (b # bs) lp st = fetch_ranges out self rd loc burl bs lp' ?st'"
    then show ?thesis using a more k by (intro exI[of _ "Suc k"]) simp
  qed
qed

lemma split_slash_plain: "CHR ''/'' \<notin> set b \<Longrightarrow> split_slash b = [b]"
  by (induction b) auto

lemma split_slash_not_Nil: "split_slash s \<noteq> []"
  by (induction s) (auto split: list.splits)

lemma split_slash_append:
  "CHR ''/'' \<notin> set b \<Longrightarrow> split_slash (a @ ''/'' @ b) = split_slash a @ [b]"
proof (induction a)
  case Nil
  then show ?case by (simp add: split_slash_plain)
next
  case (Cons c a)
  then show ?case using split_slash_not_Nil[of a] by (cases "split_slash a") auto
qed

lemma components_slash:
  "CHR ''/'' \<notin> set b \<Longrightarrow> b \<noteq> [] \<Longrightarrow> components (a @ ''/'' @ b) = components a @ [b]"
  by (simp add: components_def split_slash_append del: append.simps)

lemma components_join:
  assumes "CHR ''/'' \<notin> set b" and "b \<noteq> []"
  shows "components (os_path_join a b) = components a @ [b]"
proof -
  have hd: "hd b \<noteq> CHR ''/''" using assms by (cases b) auto
  show ?thesis
  proof (cases "a = []")
    case True
    then show ?thesis using assms hd by (simp add: os_path_join_def components_def split_slash_plain)
  next
    case False
    show ?thesis
    proof (cases "last a = CHR ''/''")
      case True
      then obtain a' where a: "a = a' @ ''/''" using False by (metis append_butlast_last_id)
      have "components (a' @ ''/'' @ b) = components a' @ [b]" using assms by (rule components_slash)
      moreover have "components (a' @ ''/'' @ []) = components a'"
        using split_slash_append[of "[]" a'] by (simp add: components_def)
      ultimately show ?thesis using hd assms True a by (simp add: os_path_join_def)
    next
      case l: False
      then show ?thesis using False hd assms components_slash[OF assms] by (simp add: os_path_join_def)
    qed
  qed
qed

lemma basename_no_slash: "CHR ''/'' \<notin> set (basename s)"
  by (auto simp: basename_def dest: set_takeWhileD)

lemma is_dir_put_child:
  assumes "is_dir fs c"
  shows "is_dir (fs_put (c @ [b]) n fs) c"
proof -
  have "stat (fs_put (c @ [b]) n fs) c = stat fs c"
    by (rule stat_cong) (auto simp: lookup_fs_put prefix_def)
  then show ?thesis using assms by (simp add: is_dir_def)
qed

lemma open_put_child:
  assumes "is_dir fs c"
  shows "open_rb (fs_put (c @ [b]) (File f m md) fs) (c @ [b]) = Inr f"
proof -
  from assms obtain r where "stat fs c = Inr (Dir r)" unfolding is_dir_iff by blast
  then have w: "walk fs (prefixes c) = None" by (rule stat_dir_walk)
  have "walk (fs_put (c @ [b]) (File f m md) fs) (prefixes c) = walk fs (prefixes c)"
    by (rule walk_cong) (auto simp: lookup_fs_put prefix_def)
  then show ?thesis using w
    by (intro open_rb_file[where m = m and md = md]) (simp_all add: ancestors_snoc lookup_fs_put)
qed

lemma sim_check:
  assumes "is_dir fs (components rd)" and "basename loc \<noteq> []"
  shows "is_header_complete (simulated pkg now n)
           (fs_put (components (os_path_join rd (basename loc))) (File f now 420) fs)
           (os_path_join rd (basename loc)) = Inr (n \<le> length f)"
proof -
  have c: "components (os_path_join rd (basename loc)) = components rd @ [basename loc]"
    using basename_no_slash assms(2) by (rule components_join)
  show ?thesis
    unfolding c is_header_complete_def
    by (simp add: open_put_child[OF assms(1)] simulated_def header_needs_def)
qed

lemma sim_step:
  assumes "is_dir (disk st) (components rd)" and "basename loc \<noteq> []" and "n \<le> length pkg"
  shows "fetch_ranges (simulated pkg now n) self rd loc burl (b # rest) lp0 st =
     (if b = 0 \<or> n \<le> b then
        (Inr (os_path_join rd (basename loc)),
         \<lparr>disk = fs_put (components (os_path_join rd (basename loc)))
                   (File (if b = 0 then pkg else take b pkg) now 420) (disk st),
          attempts = attempts st @ [b]\<rparr>)
      else
        fetch_ranges (simulated pkg now n) self rd loc burl rest (os_path_join rd (basename loc))
          \<lparr>disk = fs_put (components (os_path_join rd (basename loc)))
                   (File (take b pkg) now 420) (disk st),
           attempts = attempts st @ [b]\<rparr>)"
proof -
  have d: "download_packages (simulated pkg now n) loc burl rd b (disk st) =
      (None, os_path_join rd (basename loc),
       fs_put (components (os_path_join rd (basename loc)))
         (File (if b = 0 then pkg else take b pkg) now 420) (disk st))"
    by (simp add: simulated_def range_server_def)
  have chk: "is_header_complete (simulated pkg now n)
       (fs_put (components (os_path_join rd (basename loc)))
         (File (if b = 0 then pkg else take b pkg) now 420) (disk st))
       (os_path_join rd (basename loc)) = Inr (b = 0 \<or> n \<le> b)"
    using assms(3) by (simp add: sim_check[OF assms(1,2)])
  show ?thesis
    unfolding fetch_ranges.simps d split_conv Let_def chk
    by (simp add: truthy_def)
qed

lemma sim_dir:
  assumes "is_dir fs (components rd)" and "basename loc \<noteq> []"
  shows "is_dir (fs_put (components (os_path_join rd (basename loc))) nd fs) (components rd)"
proof -
  have c: "components (os_path_join rd (basename loc)) = components rd @ [basename loc]"
    using basename_no_slash assms(2) by (rule components_join)
  show ?thesis unfolding c using assms(1) by (rule is_dir_put_child)
qed

text \<open>
  Claim C2. Take a repository that is not local, whose destination directory
  exists, and a package whose header is not complete at the local path. Against the
  simulated remote package with a header of \<open>n\<close> bytes, \<^verbatim>\<open>download_package_header\<close>
  returns the local path with a complete header, and the byte range ends it has
  issued are \<open>ceilings_for n\<close>: 100000 alone when the header fits in 100000 bytes,
  100000 then 1000000 when it needs more than 100000 and at most 1000000, and so on
  to the whole file (0). Against any downloader and any header parser, the ends
  issued are a non-empty initial part of 100000, 1000000, 5000000, 0, in this order.
\<close>

theorem header_fetch_escalation:
  assumes rp: "root_path self = Some root_dir"
    and nl: "\<not> (case librepo_handle self of None \<Rightarrow> False | Some h \<Rightarrow> local h)"
    and inc: "is_header_complete (simulated pkg now n) (disk st)
                (os_path_join root_dir (basename location)) = Inr False"
    and dir: "is_dir (disk st) (components root_dir)"
    and bn: "basename location \<noteq> []"
    and n: "n \<le> length pkg"
  shows "(let (r, st') = download_package_header (simulated pkg now n) self location burl st in
          r = Inr (os_path_join root_dir (basename location)) \<and>
          attempts st' = attempts st @ ceilings_for n \<and>
          is_header_complete (simulated pkg now n) (disk st')
            (os_path_join root_dir (basename location)) = Inr True) \<and>
         (\<forall>out. is_header_complete out (disk st) (os_path_join root_dir (basename location))
                  = Inr False \<longrightarrow>
            (\<exists>k. 1 \<le> k \<and> k \<le> 4 \<and>
               attempts (snd (download_package_header out self location burl st))
                 = attempts st @ take k [100000, 1000000, 5000000, 0]))"
proof
  let ?lp = "os_path_join root_dir (basename location)"
  let ?put = "\<lambda>f fs. fs_put (components ?lp) (File f now 420) fs"
  have start: "download_package_header (simulated pkg now n) self location burl st =
      fetch_ranges (simulated pkg now n) self root_dir location burl
        [100000, 1000000, 5000000, 0] ?lp st"
    using rp nl inc by (simp add: download_package_header_def Let_def)
  note dirs = sim_dir[OF _ bn]
  have d1: "is_dir (?put (take 100000 pkg) (disk st)) (components root_dir)"
    using dir by (rule dirs)
  have d2: "is_dir (?put (take 1000000 pkg) (?put (take 100000 pkg) (disk st))) (components root_dir)"
    using d1 by (rule dirs)
  have d3: "is_dir (?put (take 5000000 pkg) (?put (take 1000000 pkg) (?put (take 100000 pkg) (disk st))))
      (components root_dir)"
    using d2 by (rule dirs)
  note chk = sim_check[OF _ bn, of _ root_dir pkg now n]
  consider (a) "n \<le> 100000" | (b) "100000 < n" "n \<le> 1000000"
    | (c) "1000000 < n" "n \<le> 5000000" | (d) "5000000 < n" by linarith
  then show "let (r, st') = download_package_header (simulated pkg now n) self location burl st in
          r = Inr ?lp \<and> attempts st' = attempts st @ ceilings_for n \<and>
          is_header_complete (simulated pkg now n) (disk st') ?lp = Inr True"
  proof cases
    case a
    then show ?thesis
      unfolding start using n
      by (simp add: sim_step[OF dir bn n] ceilings_for_def chk[OF dir] del: fetch_ranges.simps)
  next
    case b
    then show ?thesis
      unfolding start using n
      by (simp add: sim_step[OF dir bn n] sim_step[OF _ bn n] d1 ceilings_for_def chk[OF d1] del: fetch_ranges.simps)
  next
    case c
    then show ?thesis
      unfolding start using n
      by (simp add: sim_step[OF dir bn n] sim_step[OF _ bn n] d1 d2 ceilings_for_def chk[OF d2] del: fetch_ranges.simps)
  next
    case d
    then show ?thesis
      unfolding start using n
      by (simp add: sim_step[OF dir bn n] sim_step[OF _ bn n] d1 d2 d3 ceilings_for_def chk[OF d3] del: fetch_ranges.simps)
  qed
next
  let ?lp = "os_path_join root_dir (basename location)"
  show "\<forall>out. is_header_complete out (disk st) ?lp = Inr False \<longrightarrow>
            (\<exists>k. 1 \<le> k \<and> k \<le> 4 \<and>
               attempts (snd (download_package_header out self location burl st))
                 = attempts st @ take k [100000, 1000000, 5000000, 0])"
  proof (intro allI impI)
    fix out assume i: "is_header_complete out (disk st) ?lp = Inr False"
    have start: "download_package_header out self location burl st =
      fetch_ranges out self root_dir location burl [100000, 1000000, 5000000, 0] ?lp st"
      using rp nl i by (simp add: download_package_header_def Let_def)
    from fetch_ranges_prefix[of "[100000, 1000000, 5000000, 0]" out self root_dir location burl ?lp st]
    show "\<exists>k. 1 \<le> k \<and> k \<le> 4 \<and>
               attempts (snd (download_package_header out self location burl st))
                 = attempts st @ take k [100000, 1000000, 5000000, 0]"
      unfolding start by auto
  qed
qed

lemma components_pkg:
  "components ''/var/tmp/rpmdeplint-x/big-1.0.rpm'' = [''var'', ''tmp'', ''rpmdeplint-x'', ''big-1.0.rpm'']"
  "components ''/var/tmp/rpmdeplint-x'' = [''var'', ''tmp'', ''rpmdeplint-x'']"
  by (simp_all add: components_def)

theorem header_fetch_escalation_witness:
  "root_path remote_repo = Some ''/var/tmp/rpmdeplint-x'' \<and>
   is_header_complete (simulated (replicate 300000 (CHR ''x'')) 50 200000) tree5
     (os_path_join ''/var/tmp/rpmdeplint-x'' (basename ''Packages/big-1.0.rpm'')) = Inr False \<and>
   is_dir tree5 (components ''/var/tmp/rpmdeplint-x'') \<and>
   fst (download_package_header (simulated (replicate 300000 (CHR ''x'')) 50 200000) remote_repo
          ''Packages/big-1.0.rpm'' ''http://example.invalid/updates'' \<lparr>disk = tree5, attempts = []\<rparr>)
     = Inr ''/var/tmp/rpmdeplint-x/big-1.0.rpm'' \<and>
   attempts (snd (download_package_header (simulated (replicate 300000 (CHR ''x'')) 50 200000)
          remote_repo ''Packages/big-1.0.rpm'' ''http://example.invalid/updates''
          \<lparr>disk = tree5, attempts = []\<rparr>))
     = [100000, 1000000]"
proof -
  let ?out = "simulated (replicate 300000 (CHR ''x'')) 50 200000"
  let ?st = "\<lparr>disk = tree5, attempts = []\<rparr>"
  have bn: "basename ''Packages/big-1.0.rpm'' = ''big-1.0.rpm''" by (simp add: basename_def)
  have j: "os_path_join ''/var/tmp/rpmdeplint-x'' ''big-1.0.rpm'' = ''/var/tmp/rpmdeplint-x/big-1.0.rpm''"
    by (simp add: os_path_join_def)
  have rp: "root_path remote_repo = Some ''/var/tmp/rpmdeplint-x''" by (simp add: remote_repo_def)
  have nl: "\<not> (case librepo_handle remote_repo of None \<Rightarrow> False | Some h \<Rightarrow> local h)"
    by (simp add: remote_repo_def)
  have inc: "is_header_complete ?out (disk ?st)
      (os_path_join ''/var/tmp/rpmdeplint-x'' (basename ''Packages/big-1.0.rpm'')) = Inr False"
    by (simp add: bn j is_header_complete_def components_pkg tree5_def open_rb_def stat_def
        stat_simps0 lookup_def)
  have dir: "is_dir (disk ?st) (components ''/var/tmp/rpmdeplint-x'')"
    by (simp add: components_pkg tree5_def is_dir_def stat_def stat_simps0 lookup_def)
  have b: "basename ''Packages/big-1.0.rpm'' \<noteq> []" by (simp add: bn)
  have n: "200000 \<le> length (replicate 300000 (CHR ''x''))" by simp
  have c: "ceilings_for 200000 = [100000, 1000000]" by (simp add: ceilings_for_def)
  note T = header_fetch_escalation[OF rp nl inc dir b n,
      where burl = "''http://example.invalid/updates''", THEN conjunct1, unfolded Let_def split_beta]
  show ?thesis using T rp inc dir by (simp add: bn j c)
qed

subsection \<open>The header check\<close>

text \<open>
  Claim C10, as the code has it. \<^verbatim>\<open>_is_header_complete\<close> returns \<^verbatim>\<open>False\<close> for a path
  that does not exist, and what the header parser says for a file that opens, so
  \<^verbatim>\<open>False\<close> for a file whose bytes do not parse. Every other \<^verbatim>\<open>OSError\<close> of \<^verbatim>\<open>open\<close> is
  raised: only \<^verbatim>\<open>FileNotFoundError\<close> is caught. When the check says \<^verbatim>\<open>False\<close> for the
  local path of a repository that is not local, \<^verbatim>\<open>download_package_header\<close> goes on
  to the loop over the byte ranges and issues at least the first download.
\<close>

theorem header_check_outcomes:
  "(open_rb fs (components p) = Inl ENOENT \<longrightarrow> is_header_complete out fs p = Inr False) \<and>
   (\<forall>f. open_rb fs (components p) = Inr f \<longrightarrow>
      is_header_complete out fs p = Inr (hdrFromFdno out f)) \<and>
   (\<forall>e. open_rb fs (components p) = Inl e \<and> e \<noteq> ENOENT \<longrightarrow>
      is_header_complete out fs p = Inl (OSError e)) \<and>
   (\<forall>root_dir.
      root_path self = Some root_dir \<and>
      \<not> (case librepo_handle self of None \<Rightarrow> False | Some h \<Rightarrow> local h) \<and>
      is_header_complete out (disk st) (os_path_join root_dir (basename location)) = Inr False \<longrightarrow>
        download_package_header out self location burl st =
          fetch_ranges out self root_dir location burl [100000, 1000000, 5000000, 0]
            (os_path_join root_dir (basename location)) st \<and>
        (\<exists>k. 1 \<le> k \<and> k \<le> 4 \<and>
           attempts (snd (download_package_header out self location burl st))
             = attempts st @ take k [100000, 1000000, 5000000, 0]))"
proof (intro conjI allI impI)
  show "is_header_complete out fs p = Inr False" if "open_rb fs (components p) = Inl ENOENT"
    using that by (simp add: is_header_complete_def)
  show "is_header_complete out fs p = Inr (hdrFromFdno out f)" if "open_rb fs (components p) = Inr f" for f
    using that by (simp add: is_header_complete_def)
  show "is_header_complete out fs p = Inl (OSError e)"
    if "open_rb fs (components p) = Inl e \<and> e \<noteq> ENOENT" for e
    using that by (simp add: is_header_complete_def)
next
  fix root_dir
  assume h: "root_path self = Some root_dir \<and>
      \<not> (case librepo_handle self of None \<Rightarrow> False | Some h \<Rightarrow> local h) \<and>
      is_header_complete out (disk st) (os_path_join root_dir (basename location)) = Inr False"
  then show start: "download_package_header out self location burl st =
          fetch_ranges out self root_dir location burl [100000, 1000000, 5000000, 0]
            (os_path_join root_dir (basename location)) st"
    by (simp add: download_package_header_def Let_def del: fetch_ranges.simps)
  from fetch_ranges_prefix[of "[100000, 1000000, 5000000, 0]" out self root_dir location burl
      "os_path_join root_dir (basename location)" st]
  show "\<exists>k. 1 \<le> k \<and> k \<le> 4 \<and>
           attempts (snd (download_package_header out self location burl st))
             = attempts st @ take k [100000, 1000000, 5000000, 0]"
    unfolding start by auto
qed

theorem header_check_outcomes_witness:
  "open_rb tree5 (components ''/var/tmp/rpmdeplint-x/big-1.0.rpm'') = Inl ENOENT \<and>
   is_header_complete (simulated ''xxxx'' 50 3) tree5 ''/var/tmp/rpmdeplint-x/big-1.0.rpm'' = Inr False"
proof -
  have h: "open_rb tree5 (components ''/var/tmp/rpmdeplint-x/big-1.0.rpm'') = Inl ENOENT"
    by (simp add: components_pkg tree5_def open_rb_def stat_def stat_simps0 lookup_def)
  from header_check_outcomes[of tree5 "''/var/tmp/rpmdeplint-x/big-1.0.rpm''" "simulated ''xxxx'' 50 3",
      THEN conjunct1, THEN mp, OF h] h
  show ?thesis by simp
qed

text \<open>The check is not total: on a directory it raises \<^verbatim>\<open>IsADirectoryError\<close>.\<close>

theorem header_check_directory_counterexample:
  "is_header_complete (simulated ''xxxx'' 50 3) tree5 ''/var/tmp/rpmdeplint-x''
     = Inl (OSError EISDIR)"
  by (simp add: is_header_complete_def components_pkg tree5_def open_rb_def stat_def stat_simps0
      lookup_def)

end
